theory Spec2Isabelle
  imports Main
begin

section \<open>Python values used by pentatonic.py\<close>

text \<open>
  A Python \<open>str\<close> is a sequence of Unicode code points, so a string is a list of
  code points (natural numbers); \<open>len\<close>, indexing, \<open>find\<close> and slicing count code
  points. ASCII literals are written with \<open>ascii\<close>; the flat glyph of the source
  is the single code point U+266D.
\<close>

type_synonym pychar = nat
type_synonym pystr = "pychar list"

definition ord :: "char \<Rightarrow> pychar" where
  "ord c = of_char c"

definition ascii :: "string \<Rightarrow> pystr" where
  "ascii s = map ord s"

definition flat_glyph :: pychar where
  "flat_glyph = 9837"

datatype py_error = IndexError | KeyError

text \<open>\<open>xs[i]\<close>: an index from \<open>-len(xs)\<close> up to \<open>-1\<close> is taken from the end of the list,
  and IndexError is raised outside \<open>-len(xs) .. len(xs) - 1\<close>.\<close>

definition py_getitem :: "'a list \<Rightarrow> int \<Rightarrow> py_error + 'a" where
  "py_getitem xs i =
     (if 0 \<le> i \<and> i < int (length xs) then Inr (xs ! nat i)
      else if - int (length xs) \<le> i \<and> i < 0 then Inr (xs ! nat (int (length xs) + i))
      else Inl IndexError)"

text \<open>\<open>s[:i]\<close> of Python, with the clamping of slices.\<close>

definition py_slice_to :: "'a list \<Rightarrow> int \<Rightarrow> 'a list" where
  "py_slice_to xs i = (if i < 0 then take (nat (int (length xs) + i)) xs else take (nat i) xs)"

text \<open>\<open>s.find(c)\<close> for a one-character needle: the index of the first occurrence,
  \<open>-1\<close> when there is none.\<close>

fun py_find :: "pystr \<Rightarrow> pychar \<Rightarrow> int" where
  "py_find [] c = - 1"
| "py_find (x # xs) c =
     (if x = c then 0 else (let r = py_find xs c in if r < 0 then - 1 else r + 1))"

text \<open>
  \<open>str.isalpha\<close>, \<open>str.isspace\<close> and \<open>str.upper\<close> are driven by the Unicode character
  database, which is no part of the repository. Their ASCII behaviour and their
  behaviour on the flat glyph (U+266D, a symbol: not a letter, not white space,
  without case) are written out; for every other code point the database is a
  parameter of the model (\<open>alpha\<close>, \<open>space\<close>, \<open>upper\<close>).
\<close>

definition py_isalpha :: "(pychar \<Rightarrow> bool) \<Rightarrow> pychar \<Rightarrow> bool" where
  "py_isalpha alpha c =
     (if c < 128 then (65 \<le> c \<and> c \<le> 90) \<or> (97 \<le> c \<and> c \<le> 122)
      else if c = flat_glyph then False
      else alpha c)"

definition py_isspace :: "(pychar \<Rightarrow> bool) \<Rightarrow> pychar \<Rightarrow> bool" where
  "py_isspace space c =
     (if c < 128 then (9 \<le> c \<and> c \<le> 13) \<or> (28 \<le> c \<and> c \<le> 32)
      else if c = flat_glyph then False
      else space c)"

definition py_upper_char :: "(pychar \<Rightarrow> pystr) \<Rightarrow> pychar \<Rightarrow> pystr" where
  "py_upper_char upper c =
     (if c < 128 then (if 97 \<le> c \<and> c \<le> 122 then [c - 32] else [c])
      else if c = flat_glyph then [c]
      else upper c)"

definition py_upper :: "(pychar \<Rightarrow> pystr) \<Rightarrow> pystr \<Rightarrow> pystr" where
  "py_upper upper s = concat (map (py_upper_char upper) s)"

definition py_strip :: "(pychar \<Rightarrow> bool) \<Rightarrow> pystr \<Rightarrow> pystr" where
  "py_strip space s =
     rev (dropWhile (py_isspace space) (rev (dropWhile (py_isspace space) s)))"

section \<open>The pitch tables\<close>

definition ENHARMONIC_EQUIVALENTS :: "(pystr \<times> pystr) list" where
  "ENHARMONIC_EQUIVALENTS =
     [(ascii ''C#'', ascii ''Db''), (ascii ''Db'', ascii ''C#''),
      (ascii ''D#'', ascii ''Eb''), (ascii ''Eb'', ascii ''D#''),
      (ascii ''F#'', ascii ''Gb''), (ascii ''Gb'', ascii ''F#''),
      (ascii ''G#'', ascii ''Ab''), (ascii ''Ab'', ascii ''G#''),
      (ascii ''A#'', ascii ''Bb''), (ascii ''Bb'', ascii ''A#'')]"

definition NOTES_SHARP :: "pystr list" where
  "NOTES_SHARP =
     [ascii ''C'', ascii ''C#'', ascii ''D'', ascii ''D#'', ascii ''E'', ascii ''F'',
      ascii ''F#'', ascii ''G'', ascii ''G#'', ascii ''A'', ascii ''A#'', ascii ''B'']"

text \<open>\<open>{note: i for i, note in enumerate(NOTES_SHARP)}\<close>; the notes are distinct, so
  no entry is overwritten.\<close>

definition NOTE_TO_INT :: "(pystr \<times> int) list" where
  "NOTE_TO_INT = zip NOTES_SHARP (map int [0 ..< length NOTES_SHARP])"

text \<open>The syllables are katakana: do U+30C9, re U+30EC, mi U+30DF, fa U+30D5 U+30A1,
  so U+30BD, la U+30E9, si U+30B7; followed by \<open>#\<close> or \<open>b\<close>.\<close>

definition SOLFEGE_SHARP :: "pystr list" where
  "SOLFEGE_SHARP =
     [[12489], [12489, 35], [12524], [12524, 35], [12511], [12501, 12449],
      [12501, 12449, 35], [12477], [12477, 35], [12521], [12521, 35], [12471]]"

definition SOLFEGE_FLAT :: "pystr list" where
  "SOLFEGE_FLAT =
     [[12489], [12524, 98], [12524], [12511, 98], [12511], [12501, 12449],
      [12477, 98], [12477], [12521, 98], [12521], [12471, 98], [12471]]"

text \<open>\<open>k in d\<close>, \<open>d.get(k, None)\<close>, \<open>d.get(k, default)\<close> and \<open>d[k]\<close> on a dict given by
  its items.\<close>

definition dict_has :: "('k \<times> 'v) list \<Rightarrow> 'k \<Rightarrow> bool" where
  "dict_has d k = (k \<in> set (map fst d))"

definition dict_lookup :: "('k \<times> 'v) list \<Rightarrow> 'k \<Rightarrow> 'v option" where
  "dict_lookup d k = map_of d k"

definition dict_get :: "('k \<times> 'v) list \<Rightarrow> 'k \<Rightarrow> 'v \<Rightarrow> 'v" where
  "dict_get d k dflt = (case map_of d k of None \<Rightarrow> dflt | Some v \<Rightarrow> v)"

definition dict_item :: "('k \<times> 'v) list \<Rightarrow> 'k \<Rightarrow> py_error + 'v" where
  "dict_item d k = (case map_of d k of None \<Rightarrow> Inl KeyError | Some v \<Rightarrow> Inr v)"

section \<open>The chord parser: get_root_and_type\<close>

text \<open>The notation type, in the source one of the strings \<open>sharp\<close>, \<open>flat\<close> and
  \<open>natural\<close>.\<close>

datatype notation_type = Sharp | Flat | Natural

text \<open>Lines 32 to 45: the minor flag and the root candidate.\<close>

definition minor_split :: "(pychar \<Rightarrow> bool) \<Rightarrow> pystr \<Rightarrow> py_error + (bool \<times> pystr)" where
  "minor_split alpha code_name_raw =
     (if ord CHR ''m'' \<in> set code_name_raw then
        (let m_index = py_find code_name_raw (ord CHR ''m'') in
         if 0 < m_index then
           (if m_index + 1 = int (length code_name_raw)
            then Inr (True, py_slice_to code_name_raw m_index)
            else (case py_getitem code_name_raw (m_index + 1) of
                    Inl e \<Rightarrow> Inl e
                  | Inr c \<Rightarrow>
                      if \<not> py_isalpha alpha c
                      then Inr (True, py_slice_to code_name_raw m_index)
                      else Inr (False, code_name_raw)))
         else Inr (False, code_name_raw))
      else Inr (False, code_name_raw))"

text \<open>Lines 55 to 60: the notation type of a root spelling.\<close>

definition notation_of :: "pystr \<Rightarrow> notation_type" where
  "notation_of root_note_str =
     (if ord CHR ''#'' \<in> set root_note_str then Sharp
      else if ord CHR ''b'' \<in> set root_note_str \<or> flat_glyph \<in> set root_note_str then Flat
      else Natural)"

text \<open>Lines 48 to 62: the statement \<open>for i in range(len(root_part_candidate), 0, -1)\<close>,
  with \<open>i\<close> the current value of its variable; \<open>None\<close> when the iteration ends without
  returning.\<close>

fun root_loop :: "pystr \<Rightarrow> bool \<Rightarrow> nat \<Rightarrow> (pystr \<times> bool \<times> notation_type) option" where
  "root_loop root_part_candidate is_minor_chord 0 = None"
| "root_loop root_part_candidate is_minor_chord (Suc i) =
     (let potential_root = py_slice_to root_part_candidate (int (Suc i)) in
      if potential_root \<in> set NOTES_SHARP \<or> dict_has ENHARMONIC_EQUIVALENTS potential_root
      then Some (potential_root, is_minor_chord, notation_of potential_root)
      else root_loop root_part_candidate is_minor_chord i)"

text \<open>The function returns a triple; \<open>None\<close> stands for the triple
  \<open>(None, None, None)\<close>, the only result with a \<open>None\<close> component.\<close>

definition get_root_and_type ::
  "(pychar \<Rightarrow> bool) \<Rightarrow> pystr \<Rightarrow> py_error + (pystr \<times> bool \<times> notation_type) option" where
  "get_root_and_type alpha code_name_raw =
     (if code_name_raw = [] then Inr None
      else (case minor_split alpha code_name_raw of
              Inl e \<Rightarrow> Inl e
            | Inr (is_minor_chord, root_part_candidate) \<Rightarrow>
                (case root_loop root_part_candidate is_minor_chord (length root_part_candidate) of
                   Some r \<Rightarrow> Inr (Some r)
                 | None \<Rightarrow>
                     if 1 \<le> length root_part_candidate then
                       (case py_getitem root_part_candidate 0 of
                          Inl e \<Rightarrow> Inl e
                        | Inr c \<Rightarrow>
                            if [c] \<in> set NOTES_SHARP
                            then Inr (Some ([c], is_minor_chord, Natural))
                            else Inr None)
                     else Inr None)))"

section \<open>The pentatonic generator: get_pentatonic_scale_notes\<close>

text \<open>A list comprehension whose element expression may raise: the first error in
  order is the one raised.\<close>

fun py_list_of :: "(py_error + 'a) list \<Rightarrow> py_error + 'a list" where
  "py_list_of [] = Inr []"
| "py_list_of (r # rs) =
     (case r of
        Inl e \<Rightarrow> Inl e
      | Inr x \<Rightarrow> (case py_list_of rs of Inl e \<Rightarrow> Inl e | Inr xs \<Rightarrow> Inr (x # xs)))"

text \<open>Line 94.\<close>

definition intervals :: "bool \<Rightarrow> int list" where
  "intervals is_minor_chord = (if is_minor_chord then [0, 3, 5, 7, 10] else [0, 2, 4, 7, 9])"

text \<open>Line 97.\<close>

definition scale_notes_sharp :: "int \<Rightarrow> bool \<Rightarrow> py_error + pystr list" where
  "scale_notes_sharp root_int is_minor_chord =
     py_list_of (map (\<lambda>i. py_getitem NOTES_SHARP ((root_int + i) mod 12))
                     (intervals is_minor_chord))"

definition get_pentatonic_scale_notes ::
  "(pychar \<Rightarrow> bool) \<Rightarrow> pystr \<Rightarrow> py_error + (pystr list \<times> bool \<times> notation_type) option" where
  "get_pentatonic_scale_notes alpha code_name_raw =
     (case get_root_and_type alpha code_name_raw of
        Inl e \<Rightarrow> Inl e
      | Inr None \<Rightarrow> Inr None
      | Inr (Some (root_note_str_orig, is_minor_chord, notation_type)) \<Rightarrow>
          if root_note_str_orig = [] then Inr None
          else
            (case (if ord CHR ''b'' \<in> set root_note_str_orig \<or> flat_glyph \<in> set root_note_str_orig
                   then dict_lookup ENHARMONIC_EQUIVALENTS root_note_str_orig
                   else Some root_note_str_orig) of
               None \<Rightarrow> Inr None
             | Some root_for_calc \<Rightarrow>
                 if \<not> dict_has NOTE_TO_INT root_for_calc then Inr None
                 else
                   (case dict_item NOTE_TO_INT root_for_calc of
                      Inl e \<Rightarrow> Inl e
                    | Inr root_int \<Rightarrow>
                        (case scale_notes_sharp root_int is_minor_chord of
                           Inl e \<Rightarrow> Inl e
                         | Inr notes \<Rightarrow> Inr (Some (notes, is_minor_chord, notation_type))))))"

section \<open>The transposer: get_transposition_semitones\<close>

definition transpositions :: "(pystr \<times> int) list" where
  "transpositions =
     [(ascii ''C'', 0),
      (ascii ''BB'', 2),
      ([ord CHR ''B'', flat_glyph], 2),
      (ascii ''EB'', 9),
      ([ord CHR ''E'', flat_glyph], 9),
      (ascii ''F'', 7)]"

definition get_transposition_semitones ::
  "(pychar \<Rightarrow> bool) \<Rightarrow> (pychar \<Rightarrow> pystr) \<Rightarrow> pystr \<Rightarrow> int option" where
  "get_transposition_semitones space upper instrument_key =
     (let key = py_upper upper (py_strip space instrument_key)
      in dict_lookup transpositions key)"

text \<open>Line 294 (and 346): the transposed index of a pitch index.\<close>

definition transposed_idx :: "int \<Rightarrow> int \<Rightarrow> int" where
  "transposed_idx idx_sharp transposition = (idx_sharp + transposition) mod 12"

section \<open>The renderer: get_solfege_name\<close>

text \<open>Lines 123 to 130: whether the note is spelled flat, and the spelling looked up in
  \<open>NOTE_TO_INT\<close>.\<close>

definition is_flat_notation :: "pystr \<Rightarrow> bool" where
  "is_flat_notation note_name_sharp_or_flat =
     (ord CHR ''b'' \<in> set note_name_sharp_or_flat \<or> flat_glyph \<in> set note_name_sharp_or_flat)"

definition note_for_idx :: "pystr \<Rightarrow> pystr" where
  "note_for_idx note_name_sharp_or_flat =
     (if is_flat_notation note_name_sharp_or_flat
      then dict_get ENHARMONIC_EQUIVALENTS note_name_sharp_or_flat note_name_sharp_or_flat
      else note_name_sharp_or_flat)"

text \<open>The default \<open>NOTE_TO_INT["C"]\<close> of line 137 is evaluated before \<open>get\<close> is called.\<close>

definition get_solfege_name :: "pystr \<Rightarrow> pystr \<Rightarrow> py_error + pystr" where
  "get_solfege_name note_name_sharp_or_flat base_note_sharp =
     (if \<not> dict_has NOTE_TO_INT (note_for_idx note_name_sharp_or_flat)
      then Inr note_name_sharp_or_flat
      else
        (case dict_item NOTE_TO_INT (note_for_idx note_name_sharp_or_flat) of
           Inl e \<Rightarrow> Inl e
         | Inr note_index \<Rightarrow>
             (case dict_item NOTE_TO_INT (ascii ''C'') of
                Inl e \<Rightarrow> Inl e
              | Inr c_index \<Rightarrow>
                  (let base_index = dict_get NOTE_TO_INT base_note_sharp c_index;
                       relative_index = (note_index - base_index + 12) mod 12
                   in if is_flat_notation note_name_sharp_or_flat
                      then py_getitem SOLFEGE_FLAT relative_index
                      else py_getitem SOLFEGE_SHARP relative_index))))"

section \<open>The counting phase of run_analysis_gui\<close>

text \<open>Lines 297 to 307: the spelling handed to the renderer.\<close>

definition note_for_solfege :: "notation_type \<Rightarrow> bool \<Rightarrow> pystr \<Rightarrow> pystr" where
  "note_for_solfege notation_type is_minor_chord transposed_note_sharp =
     (if notation_type = Flat \<or> (notation_type = Natural \<and> is_minor_chord) then
        (let n = dict_get ENHARMONIC_EQUIVALENTS transposed_note_sharp transposed_note_sharp
         in if is_minor_chord then
              (if transposed_note_sharp = ascii ''D#'' then ascii ''Eb''
               else if transposed_note_sharp = ascii ''G#'' then ascii ''Ab''
               else if transposed_note_sharp = ascii ''A#'' then ascii ''Bb''
               else n)
            else n)
      else transposed_note_sharp)"

text \<open>Lines 293 to 309: the body of the loop over the notes of one scale.\<close>

definition solfege_note :: "int \<Rightarrow> bool \<Rightarrow> notation_type \<Rightarrow> pystr \<Rightarrow> py_error + pystr" where
  "solfege_note transposition is_minor_chord notation_type note_sharp =
     (case dict_item NOTE_TO_INT note_sharp of
        Inl e \<Rightarrow> Inl e
      | Inr idx_sharp \<Rightarrow>
          (case py_getitem NOTES_SHARP (transposed_idx idx_sharp transposition) of
             Inl e \<Rightarrow> Inl e
           | Inr transposed_note_sharp \<Rightarrow>
               get_solfege_name
                 (note_for_solfege notation_type is_minor_chord transposed_note_sharp)
                 (ascii ''C'')))"

text \<open>Lines 289 to 310: the syllables one chord appends to
  \<open>all_solfege_notes_for_counting\<close>; an unrecognised chord appends nothing.\<close>

definition chord_solfege_notes :: "(pychar \<Rightarrow> bool) \<Rightarrow> int \<Rightarrow> pystr \<Rightarrow> py_error + pystr list" where
  "chord_solfege_notes alpha transposition chord_name_raw =
     (case get_pentatonic_scale_notes alpha chord_name_raw of
        Inl e \<Rightarrow> Inl e
      | Inr None \<Rightarrow> Inr []
      | Inr (Some (notes, is_minor_chord, notation_type)) \<Rightarrow>
          py_list_of (map (solfege_note transposition is_minor_chord notation_type) notes))"

text \<open>Lines 287 and 288: the two nested \<open>for\<close> statements, with the list built so far
  as accumulator.\<close>

fun count_chords ::
  "(pychar \<Rightarrow> bool) \<Rightarrow> int \<Rightarrow> pystr list \<Rightarrow> pystr list \<Rightarrow> py_error + pystr list" where
  "count_chords alpha transposition [] acc = Inr acc"
| "count_chords alpha transposition (chord_name_raw # rest) acc =
     (case chord_solfege_notes alpha transposition chord_name_raw of
        Inl e \<Rightarrow> Inl e
      | Inr ns \<Rightarrow> count_chords alpha transposition rest (acc @ ns))"

fun count_measures ::
  "(pychar \<Rightarrow> bool) \<Rightarrow> int \<Rightarrow> pystr list list \<Rightarrow> pystr list \<Rightarrow> py_error + pystr list" where
  "count_measures alpha transposition [] acc = Inr acc"
| "count_measures alpha transposition (measure_chords # rest) acc =
     (case count_chords alpha transposition measure_chords acc of
        Inl e \<Rightarrow> Inl e
      | Inr acc' \<Rightarrow> count_measures alpha transposition rest acc')"

section \<open>The frequency ranker: Counter and most_common\<close>

text \<open>
  \<open>collections.Counter\<close> is a dict, which keeps its keys in the order of their first
  insertion; \<open>Counter(xs)\<close> adds one to the count of each element of \<open>xs\<close> in turn.
  \<open>most_common(n)\<close> is \<open>heapq.nlargest(n, items, key = count)\<close>, which the library
  documents as \<open>sorted(items, key = count, reverse = True)[:n]\<close>: a stable sort by
  descending count, cut after \<open>n\<close> items.
\<close>

fun counter_incr :: "('a \<times> int) list \<Rightarrow> 'a \<Rightarrow> ('a \<times> int) list" where
  "counter_incr [] x = [(x, 1)]"
| "counter_incr ((k, c) # kvs) x =
     (if k = x then (k, c + 1) # kvs else (k, c) # counter_incr kvs x)"

definition Counter :: "'a list \<Rightarrow> ('a \<times> int) list" where
  "Counter xs = foldl counter_incr [] xs"

definition most_common :: "nat \<Rightarrow> ('a \<times> int) list \<Rightarrow> ('a \<times> int) list" where
  "most_common n items = take n (sort_key (\<lambda>(k, c). - c) items)"

section \<open>run_analysis_gui, up to the ranking\<close>

text \<open>
  The widgets are outside the model: the function takes the text of the key field
  and \<open>all_measures_data\<close> as lines 269 to 278 build it from the input rows, and
  returns which message box is shown or the ranking of line 313. The reading of the
  measure count (lines 257 to 263) and the display phase after line 313, which
  renders each note once more in the same way, are left out.
\<close>

datatype analysis = KeyMissing | KeyInvalid | NoChords | Ranking "(pystr \<times> int) list"

definition run_analysis_gui ::
  "(pychar \<Rightarrow> bool) \<Rightarrow> (pychar \<Rightarrow> bool) \<Rightarrow> (pychar \<Rightarrow> pystr) \<Rightarrow> pystr \<Rightarrow> pystr list list
     \<Rightarrow> py_error + analysis" where
  "run_analysis_gui alpha space upper key_var all_measures_data =
     (let key = py_strip space key_var;
          transposition = get_transposition_semitones space upper key
      in if key = [] then Inr KeyMissing
         else
           (case transposition of
              None \<Rightarrow> Inr KeyInvalid
            | Some t \<Rightarrow>
                if \<not> (\<exists>chord_list \<in> set all_measures_data. chord_list \<noteq> []) then Inr NoChords
                else
                  (case count_measures alpha t all_measures_data [] of
                     Inl e \<Rightarrow> Inl e
                   | Inr all_solfege_notes_for_counting \<Rightarrow>
                       Inr (Ranking (most_common 3 (Counter all_solfege_notes_for_counting))))))"

section \<open>Notions of the specification\<close>

text \<open>The transposer's table as the specification writes it: the instrument keys in
  their usual spelling, with ASCII \<open>b\<close> and with the flat glyph.\<close>

definition instrument_keys :: "(pystr \<times> int) list" where
  "instrument_keys =
     [(ascii ''C'', 0), (ascii ''Bb'', 2), ([ord CHR ''B'', flat_glyph], 2),
      (ascii ''Eb'', 9), ([ord CHR ''E'', flat_glyph], 9), (ascii ''F'', 7)]"

text \<open>The valid root spellings: the twelve sharp spellings and the five flat ones.\<close>

definition valid_spellings :: "pystr list" where
  "valid_spellings =
     [ascii ''C'', ascii ''C#'', ascii ''D'', ascii ''D#'', ascii ''E'', ascii ''F'',
      ascii ''F#'', ascii ''G'', ascii ''G#'', ascii ''A'', ascii ''A#'', ascii ''B'',
      ascii ''Db'', ascii ''Eb'', ascii ''Gb'', ascii ''Ab'', ascii ''Bb'']"

text \<open>The condition of the specification on a minor marker: the character at position
  \<open>i\<close> is the letter m, it is not the first character, and it is the last character or
  the next character is not a letter.\<close>

definition minor_marker_at :: "(pychar \<Rightarrow> bool) \<Rightarrow> pystr \<Rightarrow> nat \<Rightarrow> bool" where
  "minor_marker_at alpha s i \<longleftrightarrow>
     i < length s \<and> s ! i = ord CHR ''m'' \<and> 0 < i \<and>
     (i + 1 = length s \<or> \<not> py_isalpha alpha (s ! (i + 1)))"

text \<open>The flat spelling of each pitch class; a natural pitch has no flat spelling and
  keeps its name.\<close>

definition NOTES_FLAT :: "pystr list" where
  "NOTES_FLAT =
     [ascii ''C'', ascii ''Db'', ascii ''D'', ascii ''Eb'', ascii ''E'', ascii ''F'',
      ascii ''Gb'', ascii ''G'', ascii ''Ab'', ascii ''A'', ascii ''Bb'', ascii ''B'']"

text \<open>The pitch class of a spelling: its position among the sharp spellings or, for a
  flat spelling, among the flat ones.\<close>

definition pitch_class_of :: "pystr \<Rightarrow> int option" where
  "pitch_class_of n =
     (case map_of (zip NOTES_SHARP [0, 1, 2, 3, 4, 5, 6, 7, 8, 9, 10, 11]) n of
        Some i \<Rightarrow> Some i
      | None \<Rightarrow> map_of (zip NOTES_FLAT [0, 1, 2, 3, 4, 5, 6, 7, 8, 9, 10, 11]) n)"

text \<open>The five flat spellings.\<close>

definition flat_spellings :: "pystr list" where
  "flat_spellings = [ascii ''Db'', ascii ''Eb'', ascii ''Gb'', ascii ''Ab'', ascii ''Bb'']"

text \<open>The position at which an element is first encountered in a sequence.\<close>

definition first_seen :: "'a list \<Rightarrow> 'a \<Rightarrow> nat" where
  "first_seen xs x = length (takeWhile (\<lambda>y. y \<noteq> x) xs)"

text \<open>The order of the ranking: a higher count first, and among equal counts the
  syllable encountered first.\<close>

definition ranks_before :: "'a list \<Rightarrow> 'a \<times> int \<Rightarrow> 'a \<times> int \<Rightarrow> bool" where
  "ranks_before xs a b \<longleftrightarrow>
     snd b < snd a \<or> (snd b = snd a \<and> first_seen xs (fst a) < first_seen xs (fst b))"

section \<open>Facts about the helpers\<close>

lemmas table_defs = NOTES_SHARP_def ENHARMONIC_EQUIVALENTS_def NOTE_TO_INT_def SOLFEGE_SHARP_def
  SOLFEGE_FLAT_def transpositions_def ascii_def ord_def flat_glyph_def

lemma py_find_in:
  "c \<in> set s \<Longrightarrow> 0 \<le> py_find s c \<and> py_find s c < int (length s) \<and> s ! nat (py_find s c) = c
     \<and> (\<forall>j < nat (py_find s c). s ! j \<noteq> c)"
proof (induction s)
  case Nil
  then show ?case by simp
next
  case (Cons x xs)
  show ?case
  proof (cases "x = c")
    case True
    then show ?thesis by simp
  next
    case False
    with Cons.prems have mem: "c \<in> set xs" by simp
    note ih = Cons.IH [OF mem]
    from ih have nn: "\<not> py_find xs c < 0" by simp
    have eq: "py_find (x # xs) c = py_find xs c + 1" using False nn by (simp add: Let_def)
    have n: "nat (py_find xs c + 1) = Suc (nat (py_find xs c))" using ih by arith
    show ?thesis unfolding eq n using ih False
      by (auto simp: less_Suc_eq_0_disj)
  qed
qed

lemma minor_split_eq:
  "minor_split alpha s =
     Inr (if ord CHR ''m'' \<in> set s \<and> 0 < py_find s (ord CHR ''m'') \<and>
             (nat (py_find s (ord CHR ''m'')) + 1 = length s \<or>
              \<not> py_isalpha alpha (s ! (nat (py_find s (ord CHR ''m'')) + 1)))
          then (True, take (nat (py_find s (ord CHR ''m''))) s)
          else (False, s))"
proof (cases "ord CHR ''m'' \<in> set s")
  case False
  then show ?thesis by (simp add: minor_split_def)
next
  case True
  define k where "k = py_find s (ord CHR ''m'')"
  from py_find_in [OF True] have k: "0 \<le> k" "k < int (length s)" by (simp_all add: k_def)
  have sl: "py_slice_to s k = take (nat k) s" using k by (simp add: py_slice_to_def)
  show ?thesis
  proof (cases "k + 1 = int (length s)")
    case True
    then have "nat k + 1 = length s" using k by arith
    then show ?thesis using True \<open>ord CHR ''m'' \<in> set s\<close> sl
      by (simp add: minor_split_def Let_def k_def [symmetric])
  next
    case False
    then have ne: "nat k + 1 \<noteq> length s" using k by arith
    from False k have "py_getitem s (k + 1) = Inr (s ! nat (k + 1))"
      by (simp add: py_getitem_def Let_def)
    moreover have "nat (k + 1) = nat k + 1" using k by arith
    ultimately have g: "py_getitem s (k + 1) = Inr (s ! (nat k + 1))" by simp
    show ?thesis using False ne g \<open>ord CHR ''m'' \<in> set s\<close> sl
      by (simp add: minor_split_def Let_def k_def [symmetric])
  qed
qed

lemma minor_split_total: "\<exists>b c. minor_split alpha s = Inr (b, c)"
  unfolding minor_split_eq by (metis prod.collapse)

lemma transposed_idx_inverse:
  "0 \<le> p \<Longrightarrow> p < 12 \<Longrightarrow> transposed_idx (transposed_idx p d) ((12 - d) mod 12) = p"
  unfolding transposed_idx_def by presburger

lemma py_upper_keys:
  "map (\<lambda>(e, d). (py_upper upper e, d)) instrument_keys = transpositions"
  by (simp add: instrument_keys_def py_upper_def py_upper_char_def table_defs)

lemma transpositions_lookup:
  "dict_lookup transpositions n = Some d \<longleftrightarrow> (n, d) \<in> set transpositions"
  by (auto simp add: dict_lookup_def transpositions_def ascii_def ord_def flat_glyph_def)

lemma get_transposition_semitones_iff:
  "get_transposition_semitones space upper k = Some d \<longleftrightarrow>
     (\<exists>(e, d') \<in> set instrument_keys.
        py_upper upper (py_strip space k) = py_upper upper e \<and> d' = d)"
proof -
  have "get_transposition_semitones space upper k = Some d \<longleftrightarrow>
      (py_upper upper (py_strip space k), d) \<in> set (map (\<lambda>(e, d). (py_upper upper e, d)) instrument_keys)"
    by (simp only: py_upper_keys get_transposition_semitones_def Let_def transpositions_lookup)
  also have "\<dots> \<longleftrightarrow> (\<exists>(e, d') \<in> set instrument_keys.
        py_upper upper (py_strip space k) = py_upper upper e \<and> d' = d)"
    by (force simp: image_iff)
  finally show ?thesis .
qed

lemma get_transposition_semitones_None_iff:
  "get_transposition_semitones space upper k = None \<longleftrightarrow>
     (\<forall>e \<in> fst ` set instrument_keys. py_upper upper (py_strip space k) \<noteq> py_upper upper e)"
proof -
  have "get_transposition_semitones space upper k = None \<longleftrightarrow>
      (\<forall>d. get_transposition_semitones space upper k \<noteq> Some d)" by auto
  also have "\<dots> \<longleftrightarrow>
     (\<forall>e \<in> fst ` set instrument_keys. py_upper upper (py_strip space k) \<noteq> py_upper upper e)"
    unfolding get_transposition_semitones_iff by force
  finally show ?thesis .
qed

lemma py_slice_to_int: "py_slice_to c (int n) = take n c"
  by (simp add: py_slice_to_def)

lemma valid_spellings_iff:
  "p \<in> set NOTES_SHARP \<or> dict_has ENHARMONIC_EQUIVALENTS p \<longleftrightarrow> p \<in> set valid_spellings"
  by (auto simp add: valid_spellings_def dict_has_def table_defs)

lemma root_loop_Suc:
  "root_loop c mn (Suc n) =
     (if take (Suc n) c \<in> set valid_spellings
      then Some (take (Suc n) c, mn, notation_of (take (Suc n) c))
      else root_loop c mn n)"
  by (simp only: root_loop.simps py_slice_to_int Let_def valid_spellings_iff)

declare root_loop.simps(2) [simp del]

lemma root_loop_None_iff:
  "root_loop c mn n = None \<longleftrightarrow>
     (\<forall>k. 1 \<le> k \<and> k \<le> n \<longrightarrow> take k c \<notin> set valid_spellings)"
proof (induction n)
  case 0
  then show ?case by simp
next
  case (Suc n)
  show ?case
  proof (cases "take (Suc n) c \<in> set valid_spellings")
    case True
    then have "root_loop c mn (Suc n) \<noteq> None"
      by (simp add: root_loop_Suc)
    moreover have "\<not> (\<forall>k. 1 \<le> k \<and> k \<le> Suc n \<longrightarrow> take k c \<notin> set valid_spellings)"
      using True by (metis le_add1 le_refl plus_1_eq_Suc)
    ultimately show ?thesis by blast
  next
    case False
    then have "root_loop c mn (Suc n) = root_loop c mn n"
      by (simp add: root_loop_Suc)
    moreover have "(\<forall>k. 1 \<le> k \<and> k \<le> Suc n \<longrightarrow> take k c \<notin> set valid_spellings) \<longleftrightarrow>
        (\<forall>k. 1 \<le> k \<and> k \<le> n \<longrightarrow> take k c \<notin> set valid_spellings)"
      using False by (metis le_Suc_eq)
    ultimately show ?thesis using Suc.IH by simp
  qed
qed

lemma root_loop_Some_iff:
  "root_loop c mn n = Some (r, mn', nt) \<longleftrightarrow>
     mn' = mn \<and> nt = notation_of r \<and>
     (\<exists>k. 1 \<le> k \<and> k \<le> n \<and> r = take k c \<and> r \<in> set valid_spellings \<and>
          (\<forall>j. k < j \<and> j \<le> n \<longrightarrow> take j c \<notin> set valid_spellings))"
proof (induction n)
  case 0
  then show ?case by simp
next
  case (Suc n)
  show ?case
  proof (cases "take (Suc n) c \<in> set valid_spellings")
    case True
    then have eq: "root_loop c mn (Suc n) = Some (take (Suc n) c, mn, notation_of (take (Suc n) c))"
      by (simp add: root_loop_Suc)
    show ?thesis
    proof
      assume "root_loop c mn (Suc n) = Some (r, mn', nt)"
      with eq have r: "r = take (Suc n) c" "mn' = mn" "nt = notation_of r" by simp_all
      have "1 \<le> Suc n \<and> Suc n \<le> Suc n \<and> r = take (Suc n) c \<and> r \<in> set valid_spellings \<and>
          (\<forall>j. Suc n < j \<and> j \<le> Suc n \<longrightarrow> take j c \<notin> set valid_spellings)"
        using True r by auto
      then show "mn' = mn \<and> nt = notation_of r \<and>
       (\<exists>k. 1 \<le> k \<and> k \<le> Suc n \<and> r = take k c \<and> r \<in> set valid_spellings \<and>
          (\<forall>j. k < j \<and> j \<le> Suc n \<longrightarrow> take j c \<notin> set valid_spellings))"
        using r by blast
    next
      assume a: "mn' = mn \<and> nt = notation_of r \<and>
       (\<exists>k. 1 \<le> k \<and> k \<le> Suc n \<and> r = take k c \<and> r \<in> set valid_spellings \<and>
          (\<forall>j. k < j \<and> j \<le> Suc n \<longrightarrow> take j c \<notin> set valid_spellings))"
      then obtain k where k: "1 \<le> k" "k \<le> Suc n" "r = take k c"
          "\<forall>j. k < j \<and> j \<le> Suc n \<longrightarrow> take j c \<notin> set valid_spellings" by blast
      have "k = Suc n"
      proof (rule ccontr)
        assume "k \<noteq> Suc n"
        with k have "k < Suc n \<and> Suc n \<le> Suc n" by simp
        with k(4) have "take (Suc n) c \<notin> set valid_spellings" by blast
        with True show False by simp
      qed
      with k a eq show "root_loop c mn (Suc n) = Some (r, mn', nt)" by simp
    qed
  next
    case False
    then have eq: "root_loop c mn (Suc n) = root_loop c mn n"
      by (simp add: root_loop_Suc)
    have "(\<exists>k. 1 \<le> k \<and> k \<le> Suc n \<and> r = take k c \<and> r \<in> set valid_spellings \<and>
          (\<forall>j. k < j \<and> j \<le> Suc n \<longrightarrow> take j c \<notin> set valid_spellings)) \<longleftrightarrow>
       (\<exists>k. 1 \<le> k \<and> k \<le> n \<and> r = take k c \<and> r \<in> set valid_spellings \<and>
          (\<forall>j. k < j \<and> j \<le> n \<longrightarrow> take j c \<notin> set valid_spellings))"
      (is "?L \<longleftrightarrow> ?R")
    proof
      assume ?L
      then obtain k where k: "1 \<le> k" "k \<le> Suc n" "r = take k c" "r \<in> set valid_spellings"
          "\<forall>j. k < j \<and> j \<le> Suc n \<longrightarrow> take j c \<notin> set valid_spellings" by blast
      from k(3,4) False have "k \<noteq> Suc n" by blast
      with k(2) have "k \<le> n" by simp
      moreover from k(5) have "\<forall>j. k < j \<and> j \<le> n \<longrightarrow> take j c \<notin> set valid_spellings" by simp
      ultimately show ?R using k by blast
    next
      assume ?R
      then obtain k where k: "1 \<le> k" "k \<le> n" "r = take k c" "r \<in> set valid_spellings"
          "\<forall>j. k < j \<and> j \<le> n \<longrightarrow> take j c \<notin> set valid_spellings" by blast
      have "\<forall>j. k < j \<and> j \<le> Suc n \<longrightarrow> take j c \<notin> set valid_spellings"
        using k(5) False by (metis le_Suc_eq)
      with k show ?L by (metis le_Suc_eq)
    qed
    then show ?thesis using Suc.IH eq by simp
  qed
qed

lemma get_root_and_type_eq:
  assumes "minor_split alpha s = Inr (mn, cand)"
  shows "get_root_and_type alpha s = Inr (root_loop cand mn (length cand))"
proof (cases "s = []")
  case True
  with assms have "cand = []" by (simp add: minor_split_def)
  then show ?thesis using True by (simp add: get_root_and_type_def)
next
  case False
  show ?thesis
  proof (cases "root_loop cand mn (length cand)")
    case (Some r)
    then show ?thesis using False assms by (simp add: get_root_and_type_def)
  next
    case None
    show ?thesis
    proof (cases cand)
      case Nil
      then show ?thesis using False assms None by (simp add: get_root_and_type_def)
    next
      case (Cons x xs)
      from None have "take 1 cand \<notin> set valid_spellings"
        unfolding root_loop_None_iff using Cons by (metis One_nat_def le_refl length_Cons le_add1 plus_1_eq_Suc)
      then have "[x] \<notin> set NOTES_SHARP" using Cons valid_spellings_iff [of "[x]"] by simp
      then show ?thesis using False assms None Cons
        by (simp add: get_root_and_type_def py_getitem_def)
    qed
  qed
qed

lemma get_root_and_type_returns: "\<exists>r. get_root_and_type alpha s = Inr r"
proof -
  obtain b c where "minor_split alpha s = Inr (b, c)" using minor_split_total by blast
  then show ?thesis by (simp add: get_root_and_type_eq)
qed

lemmas parse_defs = get_root_and_type_def minor_split_def py_slice_to_def py_getitem_def
  py_isalpha_def dict_has_def notation_of_def root_loop.simps

lemma parse_examples:
  "get_root_and_type alpha (ascii ''C#'') = Inr (Some (ascii ''C#'', False, Sharp))"
  "get_root_and_type alpha (ascii ''Dbm7'') = Inr (Some (ascii ''Db'', True, Flat))"
  "get_root_and_type alpha (ascii ''F'') = Inr (Some (ascii ''F'', False, Natural))"
  "get_root_and_type alpha (ascii ''F#m7b5'') = Inr (Some (ascii ''F#'', True, Sharp))"
  "get_root_and_type alpha (ascii ''Cm'') = Inr (Some (ascii ''C'', True, Natural))"
  "get_root_and_type alpha (ascii ''Dm7'') = Inr (Some (ascii ''D'', True, Natural))"
  "get_root_and_type alpha (ascii ''Cmaj7'') = Inr (Some (ascii ''C'', False, Natural))"
  "get_root_and_type alpha (ascii ''C'') = Inr (Some (ascii ''C'', False, Natural))"
  "get_root_and_type alpha (ascii ''Am'') = Inr (Some (ascii ''A'', True, Natural))"
  by (simp_all add: parse_defs table_defs)

lemma py_find_first:
  assumes "i < length s" "s ! i = c" "\<forall>j<i. s ! j \<noteq> c"
  shows "py_find s c = int i"
proof -
  from assms have mem: "c \<in> set s" by (metis nth_mem)
  note f = py_find_in [OF mem]
  define k where "k = nat (py_find s c)"
  from f have k: "k < length s" "s ! k = c" "\<forall>j<k. s ! j \<noteq> c" "py_find s c = int k"
    by (simp_all add: k_def nat_less_iff)
  have "k = i"
  proof (rule ccontr)
    assume "k \<noteq> i"
    then consider "k < i" | "i < k" by arith
    then show False using k assms by cases auto
  qed
  with k show ?thesis by simp
qed

lemma pitch_range_cases:
  "0 \<le> (p::int) \<Longrightarrow> p < 12 \<Longrightarrow> p \<in> {0, 1, 2, 3, 4, 5, 6, 7, 8, 9, 10, 11}"
  by simp arith

lemma scale_notes_sharp_all:
  "\<forall>root \<in> {0, 1, 2, 3, 4, 5, 6, 7, 8, 9, 10, 11}. \<forall>mn.
     scale_notes_sharp root mn =
       Inr (map (\<lambda>i. NOTES_SHARP ! nat ((root + i) mod 12))
                (if mn then [0, 3, 5, 7, 10] else [0, 2, 4, 7, 9]))"
  by (simp add: scale_notes_sharp_def intervals_def py_getitem_def NOTES_SHARP_def)

lemma scale_distinct_all:
  "\<forall>root \<in> {0, 1, 2, 3, 4, 5, 6, 7, 8, 9, 10, 11}. \<forall>mn.
     distinct (map (\<lambda>i. NOTES_SHARP ! nat ((root + i) mod 12))
                (if mn then [0, 3, 5, 7, 10] else [0, 2, 4, 7, 9])) \<and>
     distinct (map (\<lambda>i. (root + i) mod 12) (if mn then [0, 3, 5, 7, 10] else [0, 2, 4, 7, 9]))"
  by (simp add: table_defs)

lemma note_to_int_all:
  "\<forall>p \<in> {0, 1, 2, 3, 4, 5, 6, 7, 8, 9, 10, 11}.
     dict_has NOTE_TO_INT (NOTES_SHARP ! nat p) \<and>
     dict_item NOTE_TO_INT (NOTES_SHARP ! nat p) = Inr p"
  by (simp add: dict_has_def dict_item_def table_defs)

lemma root_for_calc_all:
  "\<forall>r \<in> set valid_spellings.
     r \<noteq> [] \<and> pitch_class_of r \<noteq> None \<and>
     the (pitch_class_of r) \<in> {0, 1, 2, 3, 4, 5, 6, 7, 8, 9, 10, 11} \<and>
     (if ord CHR ''b'' \<in> set r \<or> flat_glyph \<in> set r
      then dict_lookup ENHARMONIC_EQUIVALENTS r else Some r)
       = Some (NOTES_SHARP ! nat (the (pitch_class_of r)))"
  by (simp add: valid_spellings_def pitch_class_of_def NOTES_FLAT_def dict_lookup_def table_defs)

lemma get_root_and_type_valid:
  assumes "get_root_and_type alpha s = Inr (Some (r, mn, nt))"
  shows "r \<in> set valid_spellings"
proof -
  obtain b c where ms: "minor_split alpha s = Inr (b, c)" using minor_split_total by blast
  from assms have "root_loop c b (length c) = Some (r, mn, nt)"
    by (simp add: get_root_and_type_eq [OF ms])
  then show ?thesis unfolding root_loop_Some_iff by blast
qed

lemma get_pentatonic_scale_notes_parsed:
  assumes g: "get_root_and_type alpha s = Inr (Some (r, mn, nt))"
  shows "\<exists>root. 0 \<le> root \<and> root < 12 \<and> pitch_class_of r = Some root \<and>
     get_pentatonic_scale_notes alpha s =
       Inr (Some (map (\<lambda>i. NOTES_SHARP ! nat ((root + i) mod 12))
                      (if mn then [0, 3, 5, 7, 10] else [0, 2, 4, 7, 9]), mn, nt))"
proof -
  define root where "root = the (pitch_class_of r)"
  from get_root_and_type_valid [OF g] root_for_calc_all
  have r: "r \<noteq> []" "pitch_class_of r \<noteq> None" "root \<in> {0, 1, 2, 3, 4, 5, 6, 7, 8, 9, 10, 11}"
    "(if ord CHR ''b'' \<in> set r \<or> flat_glyph \<in> set r
      then dict_lookup ENHARMONIC_EQUIVALENTS r else Some r) = Some (NOTES_SHARP ! nat root)"
    unfolding root_def by blast+
  from r(3) note_to_int_all have n: "dict_has NOTE_TO_INT (NOTES_SHARP ! nat root)"
    "dict_item NOTE_TO_INT (NOTES_SHARP ! nat root) = Inr root" by blast+
  from r(3) scale_notes_sharp_all have sc: "scale_notes_sharp root mn =
       Inr (map (\<lambda>i. NOTES_SHARP ! nat ((root + i) mod 12))
                (if mn then [0, 3, 5, 7, 10] else [0, 2, 4, 7, 9]))" by blast
  have "get_pentatonic_scale_notes alpha s =
       Inr (Some (map (\<lambda>i. NOTES_SHARP ! nat ((root + i) mod 12))
                      (if mn then [0, 3, 5, 7, 10] else [0, 2, 4, 7, 9]), mn, nt))"
    unfolding get_pentatonic_scale_notes_def g using r(1) by (simp add: r(4) n sc)
  moreover from r(3) have "0 \<le> root \<and> root < 12" by auto
  moreover from r(2) have "pitch_class_of r = Some root" by (auto simp: root_def)
  ultimately show ?thesis by blast
qed

section \<open>The parser on the empty string\<close>

text \<open>
  Claim C10. On the empty string the parser returns the failure triple
  \<open>(None, None, None)\<close>, the very value it returns for an unrecognised chord such as
  \<open>H\<close>, and on no string at all does it raise: every call returns a value.
\<close>

theorem get_root_and_type_total:
  "get_root_and_type alpha [] = Inr None \<and>
   get_root_and_type alpha (ascii ''H'') = Inr None \<and>
   (\<forall>s. \<exists>r. get_root_and_type alpha s = Inr r)"
proof (intro conjI allI)
  show "get_root_and_type alpha [] = Inr None" by (simp add: get_root_and_type_def)
  show "get_root_and_type alpha (ascii ''H'') = Inr None"
    by (simp add: parse_defs table_defs)
  fix s
  show "\<exists>r. get_root_and_type alpha s = Inr r" by (rule get_root_and_type_returns)
qed

theorem get_root_and_type_total_witness:
  "get_root_and_type (\<lambda>_. False) [] = Inr None \<and>
   get_root_and_type (\<lambda>_. False) (ascii ''H'') = Inr None \<and>
   (\<exists>r. get_root_and_type (\<lambda>_. False) (ascii ''Cm'') = Inr r)"
  using get_root_and_type_total [of "\<lambda>_. False"] by blast

section \<open>The transposer\<close>

text \<open>
  Claim C5, as stated: a key string that equals no entry of the table, case ignored,
  gets no offset. This fails for a key with white space around it: the key made of a
  space and \<open>C\<close> equals no entry of the table, case ignored, and yet its offset is 0,
  because \<open>get_transposition_semitones\<close> strips the key before it looks it up.
\<close>

theorem transposer_padded_key_counterexample:
  "py_upper (\<lambda>c. [c]) (ascii '' C'') \<notin> set (map (py_upper (\<lambda>c. [c]) \<circ> fst) instrument_keys) \<and>
   get_transposition_semitones (\<lambda>_. False) (\<lambda>c. [c]) (ascii '' C'') = Some 0"
  by (simp add: get_transposition_semitones_def py_upper_def py_upper_char_def py_strip_def
      py_isspace_def dict_lookup_def instrument_keys_def table_defs)

text \<open>
  Claim C5, amended. A key string has offset \<open>d\<close> exactly when, stripped of leading and
  trailing white space, it equals an entry of the table C 0, Bb 2, Eb 9, F 7 (Bb and
  Eb with ASCII \<open>b\<close> or with the flat glyph), case ignored, whose offset is \<open>d\<close>; it has
  no offset (\<open>None\<close>, never a default offset) exactly when its stripped form equals no
  entry, case ignored. The transposed pitch class is \<open>(p + d) mod 12\<close>, so C (pitch
  class 0) becomes D for the key Bb and A for the key Eb.
\<close>

theorem transposer_table:
  "(get_transposition_semitones space upper k = Some d \<longleftrightarrow>
      (\<exists>(e, d') \<in> set instrument_keys.
         py_upper upper (py_strip space k) = py_upper upper e \<and> d' = d)) \<and>
   (get_transposition_semitones space upper k = None \<longleftrightarrow>
      (\<forall>e \<in> fst ` set instrument_keys.
         py_upper upper (py_strip space k) \<noteq> py_upper upper e)) \<and>
   transposed_idx p d = (p + d) mod 12 \<and>
   dict_item NOTE_TO_INT (ascii ''C'') = Inr 0 \<and>
   get_transposition_semitones space upper (ascii ''Bb'') = Some 2 \<and>
   py_getitem NOTES_SHARP (transposed_idx 0 2) = Inr (ascii ''D'') \<and>
   get_transposition_semitones space upper (ascii ''Eb'') = Some 9 \<and>
   py_getitem NOTES_SHARP (transposed_idx 0 9) = Inr (ascii ''A'')"
proof (intro conjI)
  show "get_transposition_semitones space upper k = Some d \<longleftrightarrow>
      (\<exists>(e, d') \<in> set instrument_keys.
         py_upper upper (py_strip space k) = py_upper upper e \<and> d' = d)"
    by (rule get_transposition_semitones_iff)
  show "get_transposition_semitones space upper k = None \<longleftrightarrow>
      (\<forall>e \<in> fst ` set instrument_keys.
         py_upper upper (py_strip space k) \<noteq> py_upper upper e)"
    by (rule get_transposition_semitones_None_iff)
  show "transposed_idx p d = (p + d) mod 12" by (simp add: transposed_idx_def)
  show "dict_item NOTE_TO_INT (ascii ''C'') = Inr 0" by (simp add: dict_item_def table_defs)
  show "get_transposition_semitones space upper (ascii ''Bb'') = Some 2"
    by (simp add: get_transposition_semitones_def py_upper_def py_upper_char_def py_strip_def
        py_isspace_def dict_lookup_def table_defs)
  show "py_getitem NOTES_SHARP (transposed_idx 0 2) = Inr (ascii ''D'')"
    by (simp add: py_getitem_def transposed_idx_def table_defs)
  show "get_transposition_semitones space upper (ascii ''Eb'') = Some 9"
    by (simp add: get_transposition_semitones_def py_upper_def py_upper_char_def py_strip_def
        py_isspace_def dict_lookup_def table_defs)
  show "py_getitem NOTES_SHARP (transposed_idx 0 9) = Inr (ascii ''A'')"
    by (simp add: py_getitem_def transposed_idx_def table_defs)
qed

theorem transposer_table_witness:
  "get_transposition_semitones (\<lambda>_. False) (\<lambda>c. [c]) (ascii '' bB '') = Some 2 \<and>
   get_transposition_semitones (\<lambda>_. False) (\<lambda>c. [c]) (ascii ''G'') = None"
proof -
  have up: "py_upper (\<lambda>c. [c]) (py_strip (\<lambda>_. False) (ascii '' bB '')) = ascii ''BB''"
       "py_upper (\<lambda>c. [c]) (py_strip (\<lambda>_. False) (ascii ''G'')) = ascii ''G''"
    by (simp_all add: py_upper_def py_upper_char_def py_strip_def py_isspace_def table_defs)
  have a: "get_transposition_semitones (\<lambda>_. False) (\<lambda>c. [c]) (ascii '' bB '') = Some 2"
    using transposer_table [of "\<lambda>_. False" "\<lambda>c. [c]" "ascii '' bB ''" 2] up
    by (simp add: instrument_keys_def py_upper_def py_upper_char_def table_defs)
  have b: "get_transposition_semitones (\<lambda>_. False) (\<lambda>c. [c]) (ascii ''G'') = None"
    using transposer_table [of "\<lambda>_. False" "\<lambda>c. [c]" "ascii ''G''"] up
    by (simp add: instrument_keys_def py_upper_def py_upper_char_def table_defs)
  show ?thesis using a b by blast
qed

text \<open>
  Claim C9. For every pitch class \<open>p\<close> from 0 to 11 and every instrument key the
  transposer accepts, with offset \<open>d\<close>: transposing \<open>p\<close> by \<open>d\<close> and the result by the
  inverse offset \<open>(12 - d) mod 12\<close> gives \<open>p\<close> again.
\<close>

theorem transpose_round_trip:
  "get_transposition_semitones space upper k = Some d \<Longrightarrow> 0 \<le> p \<Longrightarrow> p < 12 \<Longrightarrow>
     transposed_idx (transposed_idx p d) ((12 - d) mod 12) = p"
  by (rule transposed_idx_inverse)

theorem transpose_round_trip_witness:
  "get_transposition_semitones (\<lambda>_. False) (\<lambda>c. [c]) (ascii ''Eb'') = Some 9 \<and>
   transposed_idx (transposed_idx 4 9) ((12 - 9) mod 12) = 4"
proof -
  have k: "get_transposition_semitones (\<lambda>_. False) (\<lambda>c. [c]) (ascii ''Eb'') = Some 9"
    by (simp add: get_transposition_semitones_def py_upper_def py_upper_char_def py_strip_def
        py_isspace_def dict_lookup_def table_defs)
  show ?thesis using k transpose_round_trip [OF k, of 4] by simp
qed

section \<open>The minor marker\<close>

text \<open>
  Claim C2, as stated: a letter m is treated as a minor marker if and only if it
  stands after the first character and is the last character or is followed by a
  non-letter. This fails for an m that is not the first m of the string: in
  \<open>Cmaj7/Em\<close> the m at position 7 meets the condition, but the parser looks at the
  first m only (position 1, followed by the letter a), so no minor marker is
  recognised, the whole string stays the root candidate and the chord is parsed as C,
  not minor.
\<close>

theorem minor_marker_later_m_counterexample:
  "minor_marker_at (\<lambda>_. False) (ascii ''Cmaj7/Em'') 7 \<and>
   minor_split (\<lambda>_. False) (ascii ''Cmaj7/Em'') = Inr (False, ascii ''Cmaj7/Em'') \<and>
   get_root_and_type (\<lambda>_. False) (ascii ''Cmaj7/Em'') = Inr (Some (ascii ''C'', False, Natural))"
  by (simp add: minor_marker_at_def parse_defs table_defs)

text \<open>
  Claim C2, amended. For every chord symbol string only the first occurrence of the
  letter m is examined. It is treated as a minor marker if and only if it stands after
  the first character and is the last character of the string or is immediately
  followed by a non-letter character; then the part before it is the root candidate
  (so \<open>Cm\<close> and \<open>Dm7\<close> are minor). Otherwise, and when the string has no m, the whole
  string is the root candidate and the chord is not minor (so \<open>Cmaj7\<close> is not minor).
\<close>

theorem minor_marker_first_m:
  "(ord CHR ''m'' \<notin> set s \<longrightarrow> minor_split alpha s = Inr (False, s)) \<and>
   (\<forall>i. i < length s \<and> s ! i = ord CHR ''m'' \<and> (\<forall>j<i. s ! j \<noteq> ord CHR ''m'') \<longrightarrow>
        minor_split alpha s =
          (if minor_marker_at alpha s i then Inr (True, take i s) else Inr (False, s))) \<and>
   get_root_and_type alpha (ascii ''Cm'') = Inr (Some (ascii ''C'', True, Natural)) \<and>
   get_root_and_type alpha (ascii ''Dm7'') = Inr (Some (ascii ''D'', True, Natural)) \<and>
   get_root_and_type alpha (ascii ''Cmaj7'') = Inr (Some (ascii ''C'', False, Natural))"
proof (intro conjI allI impI)
  assume "ord CHR ''m'' \<notin> set s"
  then show "minor_split alpha s = Inr (False, s)" by (simp add: minor_split_eq)
next
  fix i
  assume a: "i < length s \<and> s ! i = ord CHR ''m'' \<and> (\<forall>j<i. s ! j \<noteq> ord CHR ''m'')"
  then have f: "py_find s (ord CHR ''m'') = int i" by (simp add: py_find_first)
  from a have mem: "ord CHR ''m'' \<in> set s" by (metis nth_mem)
  show "minor_split alpha s =
          (if minor_marker_at alpha s i then Inr (True, take i s) else Inr (False, s))"
    using a mem by (simp add: minor_split_eq f minor_marker_at_def)
qed (simp_all add: parse_examples)

theorem minor_marker_first_m_witness:
  "minor_split (\<lambda>_. False) (ascii ''Ebm7'') = Inr (True, ascii ''Eb'') \<and>
   minor_split (\<lambda>_. False) (ascii ''Cmaj7/Em'') = Inr (False, ascii ''Cmaj7/Em'') \<and>
   minor_split (\<lambda>_. False) (ascii ''G7'') = Inr (False, ascii ''G7'')"
proof -
  have a: "minor_split (\<lambda>_. False) (ascii ''Ebm7'') = Inr (True, ascii ''Eb'')"
    using minor_marker_first_m [of "ascii ''Ebm7''" "\<lambda>_. False", THEN conjunct2, THEN conjunct1, THEN spec, of "Suc (Suc 0)"]
    by (simp add: minor_marker_at_def py_isalpha_def table_defs less_Suc_eq)
  have b: "minor_split (\<lambda>_. False) (ascii ''Cmaj7/Em'') = Inr (False, ascii ''Cmaj7/Em'')"
    using minor_marker_first_m [of "ascii ''Cmaj7/Em''" "\<lambda>_. False", THEN conjunct2, THEN conjunct1, THEN spec, of "Suc 0"]
    by (simp add: minor_marker_at_def py_isalpha_def table_defs)
  have c: "minor_split (\<lambda>_. False) (ascii ''G7'') = Inr (False, ascii ''G7'')"
    using minor_marker_first_m [of "ascii ''G7''" "\<lambda>_. False", THEN conjunct1]
    by (simp add: table_defs)
  show ?thesis using a b c by simp
qed

section \<open>Root resolution\<close>

text \<open>
  Claim C3. The parser always has a root candidate, and it returns the root \<open>r\<close>
  exactly when \<open>r\<close> is the longest prefix of the candidate, of length 1 at least,
  that is a valid spelling (one of the twelve sharp and five flat spellings), so \<open>C#\<close>
  wins over \<open>C\<close> and \<open>F#m7b5\<close> has root \<open>F#\<close>; it returns the failure result exactly
  when no such prefix of the candidate is a valid spelling.
\<close>

theorem root_resolution:
  "(\<exists>mn cand. minor_split alpha s = Inr (mn, cand)) \<and>
   (\<forall>mn cand. minor_split alpha s = Inr (mn, cand) \<longrightarrow>
      (get_root_and_type alpha s = Inr (Some (r, mn', nt)) \<longleftrightarrow>
         mn' = mn \<and> nt = notation_of r \<and>
         (\<exists>k. 1 \<le> k \<and> k \<le> length cand \<and> r = take k cand \<and> r \<in> set valid_spellings \<and>
              (\<forall>j. k < j \<and> j \<le> length cand \<longrightarrow> take j cand \<notin> set valid_spellings))) \<and>
      (get_root_and_type alpha s = Inr None \<longleftrightarrow>
         (\<forall>k. 1 \<le> k \<and> k \<le> length cand \<longrightarrow> take k cand \<notin> set valid_spellings))) \<and>
   get_root_and_type alpha (ascii ''C#'') = Inr (Some (ascii ''C#'', False, Sharp)) \<and>
   get_root_and_type alpha (ascii ''F#m7b5'') = Inr (Some (ascii ''F#'', True, Sharp))"
proof (intro conjI allI impI)
  show "\<exists>mn cand. minor_split alpha s = Inr (mn, cand)" by (rule minor_split_total)
next
  fix mn cand
  assume ms: "minor_split alpha s = Inr (mn, cand)"
  show "get_root_and_type alpha s = Inr (Some (r, mn', nt)) \<longleftrightarrow>
         mn' = mn \<and> nt = notation_of r \<and>
         (\<exists>k. 1 \<le> k \<and> k \<le> length cand \<and> r = take k cand \<and> r \<in> set valid_spellings \<and>
              (\<forall>j. k < j \<and> j \<le> length cand \<longrightarrow> take j cand \<notin> set valid_spellings))"
    by (simp only: get_root_and_type_eq [OF ms] sum.inject root_loop_Some_iff)
  show "get_root_and_type alpha s = Inr None \<longleftrightarrow>
         (\<forall>k. 1 \<le> k \<and> k \<le> length cand \<longrightarrow> take k cand \<notin> set valid_spellings)"
    by (simp only: get_root_and_type_eq [OF ms] sum.inject root_loop_None_iff)
qed (simp_all add: parse_examples)

theorem root_resolution_witness:
  "minor_split (\<lambda>_. False) (ascii ''C#maj7'') = Inr (False, ascii ''C#maj7'') \<and>
   get_root_and_type (\<lambda>_. False) (ascii ''C#maj7'') = Inr (Some (ascii ''C#'', False, Sharp)) \<and>
   (\<exists>k. 1 \<le> k \<and> k \<le> length (ascii ''C#maj7'') \<and> ascii ''C#'' = take k (ascii ''C#maj7'') \<and>
        ascii ''C#'' \<in> set valid_spellings \<and>
        (\<forall>j. k < j \<and> j \<le> length (ascii ''C#maj7'') \<longrightarrow>
             take j (ascii ''C#maj7'') \<notin> set valid_spellings))"
proof -
  have ms: "minor_split (\<lambda>_. False) (ascii ''C#maj7'') = Inr (False, ascii ''C#maj7'')"
    by (simp add: parse_defs table_defs)
  have g: "get_root_and_type (\<lambda>_. False) (ascii ''C#maj7'') = Inr (Some (ascii ''C#'', False, Sharp))"
    by (simp add: parse_defs table_defs)
  show ?thesis
    using ms g root_resolution [of "\<lambda>_. False" "ascii ''C#maj7''" "ascii ''C#''" False Sharp]
    by blast
qed

section \<open>The notation type\<close>

text \<open>
  Claim C6. \<open>C#\<close> is parsed as root \<open>C#\<close>, not minor, sharp; \<open>Dbm7\<close> as root \<open>Db\<close>,
  minor, flat; \<open>F\<close> as root \<open>F\<close>, not minor, natural. In general the notation type of
  a resolved root is sharp if the root contains \<open>#\<close>, flat if it contains the ASCII
  \<open>b\<close> or the flat glyph, and natural otherwise.
\<close>

theorem parse_notation:
  "get_root_and_type alpha (ascii ''C#'') = Inr (Some (ascii ''C#'', False, Sharp)) \<and>
   get_root_and_type alpha (ascii ''Dbm7'') = Inr (Some (ascii ''Db'', True, Flat)) \<and>
   get_root_and_type alpha (ascii ''F'') = Inr (Some (ascii ''F'', False, Natural)) \<and>
   (get_root_and_type alpha s = Inr (Some (r, mn, nt)) \<longrightarrow>
      nt = (if ord CHR ''#'' \<in> set r then Sharp
            else if ord CHR ''b'' \<in> set r \<or> flat_glyph \<in> set r then Flat
            else Natural))"
proof (intro conjI impI)
  assume g: "get_root_and_type alpha s = Inr (Some (r, mn, nt))"
  obtain b c where ms: "minor_split alpha s = Inr (b, c)" using minor_split_total by blast
  from g have "root_loop c b (length c) = Some (r, mn, nt)"
    by (simp add: get_root_and_type_eq [OF ms])
  then have "nt = notation_of r" by (simp add: root_loop_Some_iff)
  then show "nt = (if ord CHR ''#'' \<in> set r then Sharp
            else if ord CHR ''b'' \<in> set r \<or> flat_glyph \<in> set r then Flat
            else Natural)"
    by (simp add: notation_of_def)
qed (simp_all add: parse_examples)

theorem parse_notation_witness:
  "get_root_and_type (\<lambda>_. False) (ascii ''Ebmaj9'') = Inr (Some (ascii ''Eb'', False, Flat)) \<and>
   ord CHR ''#'' \<notin> set (ascii ''Eb'') \<and> ord CHR ''b'' \<in> set (ascii ''Eb'')"
proof -
  have g: "get_root_and_type (\<lambda>_. False) (ascii ''Ebmaj9'') = Inr (Some (ascii ''Eb'', False, Flat))"
    by (simp add: parse_defs table_defs)
  show ?thesis
    using g parse_notation [of "\<lambda>_. False" "ascii ''Ebmaj9''" "ascii ''Eb''" False Flat]
    by (simp add: table_defs)
qed

section \<open>The pentatonic generator\<close>

lemma pentatonic_examples:
  "get_pentatonic_scale_notes alpha (ascii ''C'') =
     Inr (Some ([ascii ''C'', ascii ''D'', ascii ''E'', ascii ''G'', ascii ''A''], False, Natural))"
  "get_pentatonic_scale_notes alpha (ascii ''Am'') =
     Inr (Some ([ascii ''A'', ascii ''C'', ascii ''D'', ascii ''E'', ascii ''G''], True, Natural))"
proof -
  obtain root where r: "pitch_class_of (ascii ''C'') = Some root"
    "get_pentatonic_scale_notes alpha (ascii ''C'') =
       Inr (Some (map (\<lambda>i. NOTES_SHARP ! nat ((root + i) mod 12))
                      (if False then [0, 3, 5, 7, 10] else [0, 2, 4, 7, 9]), False, Natural))"
    using get_pentatonic_scale_notes_parsed [OF parse_examples(8), of alpha] by blast
  have "pitch_class_of (ascii ''C'') = Some 0" by (simp add: pitch_class_of_def table_defs)
  with r have "root = 0" by simp
  with r(2) show "get_pentatonic_scale_notes alpha (ascii ''C'') =
     Inr (Some ([ascii ''C'', ascii ''D'', ascii ''E'', ascii ''G'', ascii ''A''], False, Natural))"
    by (simp add: NOTES_SHARP_def)
  obtain root' where r': "pitch_class_of (ascii ''A'') = Some root'"
    "get_pentatonic_scale_notes alpha (ascii ''Am'') =
       Inr (Some (map (\<lambda>i. NOTES_SHARP ! nat ((root' + i) mod 12))
                      (if True then [0, 3, 5, 7, 10] else [0, 2, 4, 7, 9]), True, Natural))"
    using get_pentatonic_scale_notes_parsed [OF parse_examples(9), of alpha] by blast
  have "pitch_class_of (ascii ''A'') = Some 9" by (simp add: pitch_class_of_def table_defs)
  with r' have "root' = 9" by simp
  with r'(2) show "get_pentatonic_scale_notes alpha (ascii ''Am'') =
     Inr (Some ([ascii ''A'', ascii ''C'', ascii ''D'', ascii ''E'', ascii ''G''], True, Natural))"
    by (simp add: NOTES_SHARP_def)
qed

text \<open>
  Claim C1. For every root pitch class from 0 to 11 and every minor flag the generator
  returns, without error, the list of the sharp spellings of \<open>(root + i) mod 12\<close> for
  \<open>i\<close> in 0, 2, 4, 7, 9 (major) or 0, 3, 5, 7, 10 (minor), in this order: 5 distinct
  notes of 5 distinct pitch classes, the first of them the root. For every chord
  the parser accepts, \<open>get_pentatonic_scale_notes\<close> returns this list for the pitch
  class of the parsed root, with the parser's minor flag and notation type. The
  scale of \<open>C\<close> is C, D, E, G, A and the scale of \<open>Am\<close> is A, C, D, E, G.
\<close>

theorem pentatonic_scale_notes:
  "(0 \<le> root \<and> root < 12 \<longrightarrow>
      (\<exists>notes. scale_notes_sharp root is_minor = Inr notes \<and>
         notes = map (\<lambda>i. NOTES_SHARP ! nat ((root + i) mod 12))
                     (if is_minor then [0, 3, 5, 7, 10] else [0, 2, 4, 7, 9]) \<and>
         length notes = 5 \<and> distinct notes \<and> hd notes = NOTES_SHARP ! nat root \<and>
         distinct (map (\<lambda>i. (root + i) mod 12)
                     (if is_minor then [0, 3, 5, 7, 10] else [0, 2, 4, 7, 9])))) \<and>
   (get_root_and_type alpha s = Inr (Some (r, mn, nt)) \<longrightarrow>
      (\<exists>root'. 0 \<le> root' \<and> root' < 12 \<and> pitch_class_of r = Some root' \<and>
         get_pentatonic_scale_notes alpha s =
           Inr (Some (map (\<lambda>i. NOTES_SHARP ! nat ((root' + i) mod 12))
                          (if mn then [0, 3, 5, 7, 10] else [0, 2, 4, 7, 9]), mn, nt)))) \<and>
   get_pentatonic_scale_notes alpha (ascii ''C'') =
     Inr (Some ([ascii ''C'', ascii ''D'', ascii ''E'', ascii ''G'', ascii ''A''], False, Natural)) \<and>
   get_pentatonic_scale_notes alpha (ascii ''Am'') =
     Inr (Some ([ascii ''A'', ascii ''C'', ascii ''D'', ascii ''E'', ascii ''G''], True, Natural))"
proof (intro conjI impI)
  assume "0 \<le> root \<and> root < 12"
  then have m: "root \<in> {0, 1, 2, 3, 4, 5, 6, 7, 8, 9, 10, 11}" using pitch_range_cases [of root] by blast
  define ns where "ns = map (\<lambda>i. NOTES_SHARP ! nat ((root + i) mod 12))
                     (if is_minor then [0, 3, 5, 7, 10] else [0, 2, 4, 7, 9])"
  from m scale_notes_sharp_all have a: "scale_notes_sharp root is_minor = Inr ns"
    unfolding ns_def by blast
  from m scale_distinct_all have d: "distinct ns"
    "distinct (map (\<lambda>i. (root + i) mod 12)
                     (if is_minor then [0, 3, 5, 7, 10] else [0, 2, 4, 7, 9]))"
    unfolding ns_def by blast+
  have l: "length ns = 5" by (simp add: ns_def)
  have h: "hd ns = NOTES_SHARP ! nat root" using \<open>0 \<le> root \<and> root < 12\<close>
    by (simp add: ns_def)
  show "\<exists>notes. scale_notes_sharp root is_minor = Inr notes \<and>
         notes = map (\<lambda>i. NOTES_SHARP ! nat ((root + i) mod 12))
                     (if is_minor then [0, 3, 5, 7, 10] else [0, 2, 4, 7, 9]) \<and>
         length notes = 5 \<and> distinct notes \<and> hd notes = NOTES_SHARP ! nat root \<and>
         distinct (map (\<lambda>i. (root + i) mod 12)
                     (if is_minor then [0, 3, 5, 7, 10] else [0, 2, 4, 7, 9]))"
    using a d l h ns_def by blast
next
  assume "get_root_and_type alpha s = Inr (Some (r, mn, nt))"
  then show "\<exists>root'. 0 \<le> root' \<and> root' < 12 \<and> pitch_class_of r = Some root' \<and>
         get_pentatonic_scale_notes alpha s =
           Inr (Some (map (\<lambda>i. NOTES_SHARP ! nat ((root' + i) mod 12))
                          (if mn then [0, 3, 5, 7, 10] else [0, 2, 4, 7, 9]), mn, nt))"
    by (rule get_pentatonic_scale_notes_parsed)
qed (simp_all only: pentatonic_examples)

theorem pentatonic_scale_notes_witness:
  "scale_notes_sharp 6 True =
     Inr [ascii ''F#'', ascii ''A'', ascii ''B'', ascii ''C#'', ascii ''E''] \<and>
   get_root_and_type (\<lambda>_. False) (ascii ''Bbm'') = Inr (Some (ascii ''Bb'', True, Flat)) \<and>
   get_pentatonic_scale_notes (\<lambda>_. False) (ascii ''Bbm'') =
     Inr (Some ([ascii ''A#'', ascii ''C#'', ascii ''D#'', ascii ''F'', ascii ''G#''], True, Flat))"
proof -
  have a: "scale_notes_sharp 6 True =
     Inr [ascii ''F#'', ascii ''A'', ascii ''B'', ascii ''C#'', ascii ''E'']"
    using pentatonic_scale_notes [of 6 True, THEN conjunct1] by (auto simp: NOTES_SHARP_def)
  have g: "get_root_and_type (\<lambda>_. False) (ascii ''Bbm'') = Inr (Some (ascii ''Bb'', True, Flat))"
    by (simp add: parse_defs table_defs)
  have p: "pitch_class_of (ascii ''Bb'') = Some 10"
    by (simp add: pitch_class_of_def NOTES_FLAT_def table_defs)
  have b: "get_pentatonic_scale_notes (\<lambda>_. False) (ascii ''Bbm'') =
     Inr (Some ([ascii ''A#'', ascii ''C#'', ascii ''D#'', ascii ''F'', ascii ''G#''], True, Flat))"
    using pentatonic_scale_notes [of _ _ "\<lambda>_. False" "ascii ''Bbm''" "ascii ''Bb''" True Flat,
        THEN conjunct2, THEN conjunct1] g p
    by (auto simp: NOTES_SHARP_def)
  show ?thesis using a g b by simp
qed

section \<open>The renderer\<close>

lemma note_for_solfege_all:
  "\<forall>t \<in> {0, 1, 2, 3, 4, 5, 6, 7, 8, 9, 10, 11}. \<forall>mn.
     note_for_solfege Flat mn (NOTES_SHARP ! nat t) = NOTES_FLAT ! nat t \<and>
     note_for_solfege Natural True (NOTES_SHARP ! nat t) = NOTES_FLAT ! nat t \<and>
     note_for_solfege Natural False (NOTES_SHARP ! nat t) = NOTES_SHARP ! nat t \<and>
     note_for_solfege Sharp mn (NOTES_SHARP ! nat t) = NOTES_SHARP ! nat t"
  by (simp add: note_for_solfege_def dict_get_def Let_def NOTES_FLAT_def table_defs)

lemma get_solfege_name_sharp_all:
  "\<forall>t \<in> {0, 1, 2, 3, 4, 5, 6, 7, 8, 9, 10, 11}.
     NOTES_SHARP ! nat t \<in> set NOTES_SHARP \<and>
     NOTES_SHARP ! nat t \<notin> set flat_spellings \<and>
     \<not> is_flat_notation (NOTES_SHARP ! nat t) \<and>
     note_for_idx (NOTES_SHARP ! nat t) = NOTES_SHARP ! nat t \<and>
     get_solfege_name (NOTES_SHARP ! nat t) (ascii ''C'') = Inr (SOLFEGE_SHARP ! nat t)"
  by (simp add: get_solfege_name_def note_for_idx_def is_flat_notation_def dict_get_def Let_def
      dict_has_def dict_item_def py_getitem_def flat_spellings_def table_defs)

lemma get_solfege_name_flat_all:
  "\<forall>t \<in> {1, 3, 6, 8, 10}.
     NOTES_FLAT ! nat t \<in> set flat_spellings \<and>
     NOTES_FLAT ! nat t \<notin> set NOTES_SHARP \<and>
     is_flat_notation (NOTES_FLAT ! nat t) \<and>
     dict_lookup ENHARMONIC_EQUIVALENTS (NOTES_SHARP ! nat t) = Some (NOTES_FLAT ! nat t) \<and>
     note_for_idx (NOTES_FLAT ! nat t) = NOTES_SHARP ! nat t \<and>
     get_solfege_name (NOTES_FLAT ! nat t) (ascii ''C'') = Inr (SOLFEGE_FLAT ! nat t)"
  by (simp add: get_solfege_name_def note_for_idx_def is_flat_notation_def dict_get_def Let_def
      dict_has_def dict_item_def dict_lookup_def py_getitem_def flat_spellings_def NOTES_FLAT_def table_defs)

lemma notes_flat_natural:
  "\<forall>t \<in> {0, 2, 4, 5, 7, 9, 11}. NOTES_FLAT ! nat t = NOTES_SHARP ! nat t"
  by (simp add: NOTES_FLAT_def table_defs)

lemma syllables_distinct_from_notes:
  "\<forall>t \<in> {0, 1, 2, 3, 4, 5, 6, 7, 8, 9, 10, 11}.
     SOLFEGE_SHARP ! nat t \<notin> set valid_spellings \<and> SOLFEGE_FLAT ! nat t \<notin> set valid_spellings \<and>
     NOTES_SHARP ! nat t \<in> set valid_spellings \<and> NOTES_FLAT ! nat t \<in> set valid_spellings"
  by (simp add: valid_spellings_def NOTES_FLAT_def table_defs)

lemma transposed_idx_range: "0 \<le> transposed_idx p tr \<and> transposed_idx p tr < 12"
  by (simp add: transposed_idx_def)

lemma solfege_note_eq:
  assumes "0 \<le> p" "p < 12"
  shows "solfege_note tr mn nt (NOTES_SHARP ! nat p) =
     get_solfege_name (note_for_solfege nt mn (NOTES_SHARP ! nat (transposed_idx p tr))) (ascii ''C'')"
proof -
  from assms have "p \<in> {0, 1, 2, 3, 4, 5, 6, 7, 8, 9, 10, 11}" by (rule pitch_range_cases)
  with note_to_int_all have n: "dict_item NOTE_TO_INT (NOTES_SHARP ! nat p) = Inr p" by blast
  have "py_getitem NOTES_SHARP (transposed_idx p tr) = Inr (NOTES_SHARP ! nat (transposed_idx p tr))"
    using transposed_idx_range [of p tr] by (simp add: py_getitem_def NOTES_SHARP_def)
  then show ?thesis by (simp add: solfege_note_def n)
qed

lemma rendered_note:
  assumes "0 \<le> t" "t < 12"
  shows "note_for_solfege nt mn (NOTES_SHARP ! nat t) =
           (if nt = Flat \<or> (nt = Natural \<and> mn) then NOTES_FLAT ! nat t else NOTES_SHARP ! nat t)"
    and "get_solfege_name (note_for_solfege nt mn (NOTES_SHARP ! nat t)) (ascii ''C'') =
           Inr ((if note_for_solfege nt mn (NOTES_SHARP ! nat t) \<in> set flat_spellings
                 then SOLFEGE_FLAT else SOLFEGE_SHARP) ! nat t)"
    and "note_for_solfege nt mn (NOTES_SHARP ! nat t) \<in> set NOTES_SHARP \<or>
         (note_for_solfege nt mn (NOTES_SHARP ! nat t) \<in> set flat_spellings \<and>
          dict_lookup ENHARMONIC_EQUIVALENTS (NOTES_SHARP ! nat t) =
            Some (note_for_solfege nt mn (NOTES_SHARP ! nat t)))"
    and "dict_has NOTE_TO_INT (note_for_idx (note_for_solfege nt mn (NOTES_SHARP ! nat t)))"
    and "get_solfege_name (note_for_solfege nt mn (NOTES_SHARP ! nat t)) (ascii ''C'') \<noteq>
           Inr (note_for_solfege nt mn (NOTES_SHARP ! nat t))"
proof -
  from assms have m: "t \<in> {0, 1, 2, 3, 4, 5, 6, 7, 8, 9, 10, 11}" by (rule pitch_range_cases)
  show c: "note_for_solfege nt mn (NOTES_SHARP ! nat t) =
           (if nt = Flat \<or> (nt = Natural \<and> mn) then NOTES_FLAT ! nat t else NOTES_SHARP ! nat t)"
    using m note_for_solfege_all by (cases nt; cases mn) auto
  from m get_solfege_name_sharp_all
  have s: "NOTES_SHARP ! nat t \<in> set NOTES_SHARP" "NOTES_SHARP ! nat t \<notin> set flat_spellings"
     "note_for_idx (NOTES_SHARP ! nat t) = NOTES_SHARP ! nat t"
     "get_solfege_name (NOTES_SHARP ! nat t) (ascii ''C'') = Inr (SOLFEGE_SHARP ! nat t)" by blast+
  from m note_to_int_all have d: "dict_has NOTE_TO_INT (NOTES_SHARP ! nat t)" by blast
  from m syllables_distinct_from_notes
  have v: "SOLFEGE_SHARP ! nat t \<notin> set valid_spellings" "SOLFEGE_FLAT ! nat t \<notin> set valid_spellings"
     "NOTES_SHARP ! nat t \<in> set valid_spellings" "NOTES_FLAT ! nat t \<in> set valid_spellings" by blast+
  consider (black) "t \<in> {1, 3, 6, 8, 10}" | (white) "t \<in> {0, 2, 4, 5, 7, 9, 11}" using m by auto
  then have "get_solfege_name (note_for_solfege nt mn (NOTES_SHARP ! nat t)) (ascii ''C'') =
           Inr ((if note_for_solfege nt mn (NOTES_SHARP ! nat t) \<in> set flat_spellings
                 then SOLFEGE_FLAT else SOLFEGE_SHARP) ! nat t) \<and>
       (note_for_solfege nt mn (NOTES_SHARP ! nat t) \<in> set NOTES_SHARP \<or>
         (note_for_solfege nt mn (NOTES_SHARP ! nat t) \<in> set flat_spellings \<and>
          dict_lookup ENHARMONIC_EQUIVALENTS (NOTES_SHARP ! nat t) =
            Some (note_for_solfege nt mn (NOTES_SHARP ! nat t)))) \<and>
       dict_has NOTE_TO_INT (note_for_idx (note_for_solfege nt mn (NOTES_SHARP ! nat t))) \<and>
       get_solfege_name (note_for_solfege nt mn (NOTES_SHARP ! nat t)) (ascii ''C'') \<noteq>
           Inr (note_for_solfege nt mn (NOTES_SHARP ! nat t))"
  proof cases
    case black
    with get_solfege_name_flat_all
    have f: "NOTES_FLAT ! nat t \<in> set flat_spellings"
      "dict_lookup ENHARMONIC_EQUIVALENTS (NOTES_SHARP ! nat t) = Some (NOTES_FLAT ! nat t)"
      "note_for_idx (NOTES_FLAT ! nat t) = NOTES_SHARP ! nat t"
      "get_solfege_name (NOTES_FLAT ! nat t) (ascii ''C'') = Inr (SOLFEGE_FLAT ! nat t)" by blast+
    show ?thesis using c s f d v by (cases "nt = Flat \<or> (nt = Natural \<and> mn)") auto
  next
    case white
    with notes_flat_natural have "NOTES_FLAT ! nat t = NOTES_SHARP ! nat t" by blast
    then show ?thesis using c s d v by auto
  qed
  then show "get_solfege_name (note_for_solfege nt mn (NOTES_SHARP ! nat t)) (ascii ''C'') =
           Inr ((if note_for_solfege nt mn (NOTES_SHARP ! nat t) \<in> set flat_spellings
                 then SOLFEGE_FLAT else SOLFEGE_SHARP) ! nat t)"
    and "note_for_solfege nt mn (NOTES_SHARP ! nat t) \<in> set NOTES_SHARP \<or>
         (note_for_solfege nt mn (NOTES_SHARP ! nat t) \<in> set flat_spellings \<and>
          dict_lookup ENHARMONIC_EQUIVALENTS (NOTES_SHARP ! nat t) =
            Some (note_for_solfege nt mn (NOTES_SHARP ! nat t)))"
    and "dict_has NOTE_TO_INT (note_for_idx (note_for_solfege nt mn (NOTES_SHARP ! nat t)))"
    and "get_solfege_name (note_for_solfege nt mn (NOTES_SHARP ! nat t)) (ascii ''C'') \<noteq>
           Inr (note_for_solfege nt mn (NOTES_SHARP ! nat t))"
    by blast+
qed

lemma forced_flats:
  assumes "is_minor" "nt \<noteq> Sharp"
  shows "(n = ascii ''D#'' \<longrightarrow> note_for_solfege nt is_minor n = ascii ''Eb'') \<and>
         (n = ascii ''G#'' \<longrightarrow> note_for_solfege nt is_minor n = ascii ''Ab'') \<and>
         (n = ascii ''A#'' \<longrightarrow> note_for_solfege nt is_minor n = ascii ''Bb'')"
  using assms by (cases nt) (simp_all add: note_for_solfege_def Let_def ascii_def ord_def)

text \<open>
  Claim C4. For a scale note of pitch class \<open>p\<close> and the transposed pitch class
  \<open>t = (p + transposition) mod 12\<close>, the spelling handed to the renderer is the flat
  spelling of \<open>t\<close> when the chord's notation type is flat, or natural with a minor
  chord (then D# is Eb, G# is Ab and A# is Bb), and the sharp spelling otherwise. The
  rendered syllable is the entry at index \<open>(t - 0 + 12) mod 12\<close>, 0 being the index of
  the reference C, of the flat syllables when the chosen spelling is one of the five
  flat spellings and of the sharp syllables otherwise.
\<close>

theorem solfege_rendering:
  "0 \<le> p \<and> p < 12 \<longrightarrow>
     (let t = transposed_idx p transposition;
          chosen = note_for_solfege nt is_minor (NOTES_SHARP ! nat t)
      in chosen = (if nt = Flat \<or> (nt = Natural \<and> is_minor)
                   then NOTES_FLAT ! nat t else NOTES_SHARP ! nat t) \<and>
         (is_minor \<and> nt \<noteq> Sharp \<longrightarrow>
            (NOTES_SHARP ! nat t = ascii ''D#'' \<longrightarrow> chosen = ascii ''Eb'') \<and>
            (NOTES_SHARP ! nat t = ascii ''G#'' \<longrightarrow> chosen = ascii ''Ab'') \<and>
            (NOTES_SHARP ! nat t = ascii ''A#'' \<longrightarrow> chosen = ascii ''Bb'')) \<and>
         dict_item NOTE_TO_INT (ascii ''C'') = Inr 0 \<and>
         solfege_note transposition is_minor nt (NOTES_SHARP ! nat p) =
           Inr ((if chosen \<in> set flat_spellings then SOLFEGE_FLAT else SOLFEGE_SHARP)
                  ! nat ((t - 0 + 12) mod 12)))"
proof
  assume a: "0 \<le> p \<and> p < 12"
  define t where "t = transposed_idx p transposition"
  have r: "0 \<le> t" "t < 12" using transposed_idx_range [of p transposition] by (simp_all add: t_def)
  then have m: "(t - 0 + 12) mod 12 = t" by simp
  have c: "dict_item NOTE_TO_INT (ascii ''C'') = Inr 0" by (simp add: dict_item_def table_defs)
  have s: "solfege_note transposition is_minor nt (NOTES_SHARP ! nat p) =
     get_solfege_name (note_for_solfege nt is_minor (NOTES_SHARP ! nat t)) (ascii ''C'')"
    using a by (simp add: solfege_note_eq t_def)
  show "let t = transposed_idx p transposition;
          chosen = note_for_solfege nt is_minor (NOTES_SHARP ! nat t)
      in chosen = (if nt = Flat \<or> (nt = Natural \<and> is_minor)
                   then NOTES_FLAT ! nat t else NOTES_SHARP ! nat t) \<and>
         (is_minor \<and> nt \<noteq> Sharp \<longrightarrow>
            (NOTES_SHARP ! nat t = ascii ''D#'' \<longrightarrow> chosen = ascii ''Eb'') \<and>
            (NOTES_SHARP ! nat t = ascii ''G#'' \<longrightarrow> chosen = ascii ''Ab'') \<and>
            (NOTES_SHARP ! nat t = ascii ''A#'' \<longrightarrow> chosen = ascii ''Bb'')) \<and>
         dict_item NOTE_TO_INT (ascii ''C'') = Inr 0 \<and>
         solfege_note transposition is_minor nt (NOTES_SHARP ! nat p) =
           Inr ((if chosen \<in> set flat_spellings then SOLFEGE_FLAT else SOLFEGE_SHARP)
                  ! nat ((t - 0 + 12) mod 12))"
    unfolding Let_def t_def [symmetric] m s
    using rendered_note(1,2) [OF r, of nt is_minor] forced_flats [of is_minor nt] c
    by presburger
qed

theorem solfege_rendering_witness:
  "note_for_solfege Natural True (ascii ''D#'') = ascii ''Eb'' \<and>
   solfege_note 0 True Natural (ascii ''D#'') = Inr [12511, 98] \<and>
   solfege_note 2 False Sharp (ascii ''C#'') = Inr [12524, 35]"
proof -
  have n: "NOTES_SHARP ! nat 3 = ascii ''D#''" "NOTES_SHARP ! nat 1 = ascii ''C#''"
    "NOTES_FLAT ! nat 3 = ascii ''Eb''" "ascii ''Eb'' \<in> set flat_spellings"
    "ascii ''D#'' \<notin> set flat_spellings"
    "SOLFEGE_FLAT ! nat 3 = [12511, 98]" "SOLFEGE_SHARP ! nat 3 = [12524, 35]"
    by (simp_all add: NOTES_FLAT_def flat_spellings_def table_defs)
  have a: "note_for_solfege Natural True (ascii ''D#'') = ascii ''Eb'' \<and>
     solfege_note 0 True Natural (ascii ''D#'') = Inr [12511, 98]"
    using solfege_rendering [of 3 0 Natural True] n
    by (simp add: transposed_idx_def Let_def)
  have b: "solfege_note 2 False Sharp (ascii ''C#'') = Inr [12524, 35]"
    using solfege_rendering [of 1 2 Sharp False] n
    by (simp add: transposed_idx_def Let_def)
  show ?thesis using a b by simp
qed

lemma get_pentatonic_scale_notes_sharp:
  assumes "get_pentatonic_scale_notes alpha s = Inr (Some (ns, mn, nt))"
  shows "\<forall>n \<in> set ns. \<exists>p. 0 \<le> p \<and> p < 12 \<and> n = NOTES_SHARP ! nat p"
proof -
  from assms obtain r where "get_root_and_type alpha s = Inr (Some (r, mn, nt))"
    by (auto simp: get_pentatonic_scale_notes_def split: sum.splits option.splits if_splits)
  from get_pentatonic_scale_notes_parsed [OF this] assms
  obtain root where "ns = map (\<lambda>i. NOTES_SHARP ! nat ((root + i) mod 12))
                      (if mn then [0, 3, 5, 7, 10] else [0, 2, 4, 7, 9])" by auto
  then have "set ns \<subseteq> range (\<lambda>i. NOTES_SHARP ! nat ((root + i) mod 12))"
    by (simp only: set_map) blast
  then have "\<forall>n \<in> set ns. \<exists>i. n = NOTES_SHARP ! nat ((root + i) mod 12)" by blast
  moreover have "\<And>i. 0 \<le> (root + i) mod 12 \<and> (root + i) mod 12 < 12" by simp
  ultimately show ?thesis by blast
qed

text \<open>
  Claim C8. The renderer returns its input unchanged when the note, mapped through
  the enharmonic equivalents if it is spelled flat, has no entry in \<open>NOTE_TO_INT\<close>.
  That branch is never taken in the pipeline: every note of a generated scale is a
  sharp spelling of a pitch class \<open>p\<close>, and the note handed to the renderer for it is
  either a sharp spelling or a flat spelling that the enharmonic equivalents give for
  the transposed sharp spelling; in both cases the lookup succeeds and the result is
  a syllable, not the note.
\<close>

theorem solfege_fallback_unreachable:
  "(\<not> dict_has NOTE_TO_INT (note_for_idx note_name) \<longrightarrow>
      get_solfege_name note_name base = Inr note_name) \<and>
   (get_pentatonic_scale_notes alpha s = Inr (Some (ns, mn, ntype)) \<longrightarrow>
      (\<forall>n \<in> set ns. \<exists>p. 0 \<le> p \<and> p < 12 \<and> n = NOTES_SHARP ! nat p)) \<and>
   (0 \<le> p \<and> p < 12 \<longrightarrow>
      (let sharp = NOTES_SHARP ! nat (transposed_idx p transposition);
           fed = note_for_solfege nt is_minor sharp
       in solfege_note transposition is_minor nt (NOTES_SHARP ! nat p) =
            get_solfege_name fed (ascii ''C'') \<and>
          (fed \<in> set NOTES_SHARP \<or>
           (fed \<in> set flat_spellings \<and> dict_lookup ENHARMONIC_EQUIVALENTS sharp = Some fed)) \<and>
          dict_has NOTE_TO_INT (note_for_idx fed) \<and>
          get_solfege_name fed (ascii ''C'') \<noteq> Inr fed))"
proof (intro conjI impI)
  assume "\<not> dict_has NOTE_TO_INT (note_for_idx note_name)"
  then show "get_solfege_name note_name base = Inr note_name" by (simp add: get_solfege_name_def)
next
  assume "get_pentatonic_scale_notes alpha s = Inr (Some (ns, mn, ntype))"
  then show "\<forall>n \<in> set ns. \<exists>p. 0 \<le> p \<and> p < 12 \<and> n = NOTES_SHARP ! nat p"
    by (rule get_pentatonic_scale_notes_sharp)
next
  assume a: "0 \<le> p \<and> p < 12"
  define t where "t = transposed_idx p transposition"
  have r: "0 \<le> t" "t < 12" using transposed_idx_range [of p transposition] by (simp_all add: t_def)
  have s: "solfege_note transposition is_minor nt (NOTES_SHARP ! nat p) =
     get_solfege_name (note_for_solfege nt is_minor (NOTES_SHARP ! nat t)) (ascii ''C'')"
    using a by (simp add: solfege_note_eq t_def)
  show "let sharp = NOTES_SHARP ! nat (transposed_idx p transposition);
           fed = note_for_solfege nt is_minor sharp
       in solfege_note transposition is_minor nt (NOTES_SHARP ! nat p) =
            get_solfege_name fed (ascii ''C'') \<and>
          (fed \<in> set NOTES_SHARP \<or>
           (fed \<in> set flat_spellings \<and> dict_lookup ENHARMONIC_EQUIVALENTS sharp = Some fed)) \<and>
          dict_has NOTE_TO_INT (note_for_idx fed) \<and>
          get_solfege_name fed (ascii ''C'') \<noteq> Inr fed"
    unfolding Let_def t_def [symmetric]
    using s rendered_note(3,4,5) [OF r, of nt is_minor] by blast
qed

theorem solfege_fallback_unreachable_witness:
  "get_solfege_name (ascii ''H'') (ascii ''C'') = Inr (ascii ''H'') \<and>
   get_pentatonic_scale_notes (\<lambda>_. False) (ascii ''C'') =
     Inr (Some ([ascii ''C'', ascii ''D'', ascii ''E'', ascii ''G'', ascii ''A''], False, Natural)) \<and>
   (\<exists>p. 0 \<le> p \<and> p < 12 \<and> ascii ''G'' = NOTES_SHARP ! nat p) \<and>
   solfege_note 2 True Natural (ascii ''C#'') = get_solfege_name (ascii ''Eb'') (ascii ''C'') \<and>
   dict_has NOTE_TO_INT (note_for_idx (ascii ''Eb'')) \<and>
   get_solfege_name (ascii ''Eb'') (ascii ''C'') \<noteq> Inr (ascii ''Eb'')"
proof -
  have h: "\<not> dict_has NOTE_TO_INT (note_for_idx (ascii ''H''))"
    by (simp add: dict_has_def note_for_idx_def is_flat_notation_def table_defs)
  have a: "get_solfege_name (ascii ''H'') (ascii ''C'') = Inr (ascii ''H'')"
    using solfege_fallback_unreachable [where note_name = "ascii ''H''" and base = "ascii ''C''",
        THEN conjunct1] h by blast
  note g = pentatonic_examples(1) [of "\<lambda>_. False"]
  have c: "\<exists>p. 0 \<le> p \<and> p < 12 \<and> ascii ''G'' = NOTES_SHARP ! nat p"
    using solfege_fallback_unreachable [where alpha = "\<lambda>_. False" and s = "ascii ''C''"
          and ns = "[ascii ''C'', ascii ''D'', ascii ''E'', ascii ''G'', ascii ''A'']"
          and mn = False and ntype = Natural, THEN conjunct2, THEN conjunct1] g
    by simp
  have n: "NOTES_SHARP ! nat 1 = ascii ''C#''"
    "note_for_solfege Natural True (NOTES_SHARP ! nat (transposed_idx 1 2)) = ascii ''Eb''"
    by (simp_all add: note_for_solfege_def transposed_idx_def dict_get_def Let_def table_defs)
  have b: "solfege_note 2 True Natural (ascii ''C#'') = get_solfege_name (ascii ''Eb'') (ascii ''C'') \<and>
   dict_has NOTE_TO_INT (note_for_idx (ascii ''Eb'')) \<and>
   get_solfege_name (ascii ''Eb'') (ascii ''C'') \<noteq> Inr (ascii ''Eb'')"
    using solfege_fallback_unreachable [where p = 1 and transposition = 2 and nt = Natural
          and is_minor = True, THEN conjunct2, THEN conjunct2]
    unfolding Let_def n by simp
  show ?thesis using a g c b by simp
qed

section \<open>The frequency ranker\<close>

lemma first_seen_append_mem: "a \<in> set xs \<Longrightarrow> first_seen (xs @ ys) a = first_seen xs a"
  by (induction xs) (auto simp: first_seen_def)

lemma first_seen_less: "a \<in> set xs \<Longrightarrow> first_seen xs a < length xs"
  by (induction xs) (auto simp: first_seen_def)

lemma first_seen_new: "x \<notin> set xs \<Longrightarrow> first_seen (xs @ [x]) x = length xs"
  by (induction xs) (auto simp: first_seen_def)

text \<open>The keys of a counter, in the order of their first insertion.\<close>

lemma counter_incr_keys:
  "map fst (counter_incr kvs x) =
     (if x \<in> set (map fst kvs) then map fst kvs else map fst kvs @ [x])"
  by (induction kvs x rule: counter_incr.induct) auto

lemma counter_incr_map_of:
  "map_of (counter_incr kvs x) =
     (map_of kvs)(x \<mapsto> (case map_of kvs x of None \<Rightarrow> 1 | Some c \<Rightarrow> c + 1))"
  by (induction kvs x rule: counter_incr.induct) (auto simp: fun_eq_iff)

lemma Counter_snoc: "Counter (xs @ [x]) = counter_incr (Counter xs) x"
  by (simp add: Counter_def)

lemma Counter_keys:
  "distinct (map fst (Counter xs)) \<and> set (map fst (Counter xs)) = set xs \<and>
   sorted_wrt (\<lambda>a b. first_seen xs a < first_seen xs b) (map fst (Counter xs))"
proof (induction xs rule: rev_induct)
  case Nil
  then show ?case by (simp add: Counter_def)
next
  case (snoc x xs)
  let ?K = "map fst (Counter xs)"
  from snoc have d: "distinct ?K" and s: "set ?K = set xs"
    and o: "sorted_wrt (\<lambda>a b. first_seen xs a < first_seen xs b) ?K" by simp_all
  have o': "sorted_wrt (\<lambda>a b. first_seen (xs @ [x]) a < first_seen (xs @ [x]) b) ?K"
    using o s by (auto simp: first_seen_append_mem elim!: sorted_wrt_mono_rel [rotated])
  show ?case
  proof (cases "x \<in> set xs")
    case True
    then have "map fst (Counter (xs @ [x])) = ?K" using s by (simp add: Counter_snoc counter_incr_keys)
    then show ?thesis using d s o' True by auto
  next
    case False
    then have k: "map fst (Counter (xs @ [x])) = ?K @ [x]" using s
      by (simp add: Counter_snoc counter_incr_keys)
    have "\<forall>a \<in> set xs. first_seen (xs @ [x]) a < first_seen (xs @ [x]) x"
      using False by (simp add: first_seen_append_mem first_seen_new first_seen_less)
    then have "\<forall>a \<in> set ?K. first_seen (xs @ [x]) a < first_seen (xs @ [x]) x"
      unfolding s .
    moreover have "distinct (?K @ [x])" using d s False by (simp del: set_map)
    moreover have "set (?K @ [x]) = set (xs @ [x])" using s by (simp del: set_map)
    ultimately show ?thesis unfolding k using o' by (simp add: sorted_wrt_append del: set_map)
  qed
qed

lemma Counter_map_of:
  "map_of (Counter xs) k = (if k \<in> set xs then Some (int (count_list xs k)) else None)"
proof (induction xs arbitrary: k rule: rev_induct)
  case Nil
  then show ?case by (simp add: Counter_def)
next
  case (snoc x xs)
  then show ?case by (simp add: Counter_snoc counter_incr_map_of)
qed

lemma Counter_counts:
  assumes "(k, c) \<in> set (Counter xs)"
  shows "k \<in> set xs \<and> c = int (count_list xs k)"
proof -
  from Counter_keys [of xs] have "distinct (map fst (Counter xs))" by simp
  with assms have "map_of (Counter xs) k = Some c" by simp
  then show ?thesis by (simp add: Counter_map_of split: if_splits)
qed

text \<open>A stable sort refines the order of its input by the key.\<close>

lemma insort_key_refines:
  fixes f :: "'b \<Rightarrow> 'k::linorder"
  assumes "sorted_wrt (\<lambda>a b. f a < f b \<or> (f a = f b \<and> R a b)) ys"
    and "\<forall>y \<in> set ys. R x y"
  shows "sorted_wrt (\<lambda>a b. f a < f b \<or> (f a = f b \<and> R a b)) (insort_key f x ys)"
  using assms
proof (induction ys)
  case Nil
  then show ?case by simp
next
  case (Cons y ys)
  show ?case
  proof (cases "f x \<le> f y")
    case True
    have "\<forall>z \<in> set (y # ys). f x < f z \<or> (f x = f z \<and> R x z)"
    proof
      fix z
      assume z: "z \<in> set (y # ys)"
      then have "f y \<le> f z" using Cons.prems(1) by auto
      with True have "f x \<le> f z" by simp
      moreover have "R x z" using Cons.prems(2) z by blast
      ultimately show "f x < f z \<or> (f x = f z \<and> R x z)" by auto
    qed
    then show ?thesis using True Cons.prems(1) by simp
  next
    case False
    then have lt: "f y < f x" by simp
    have ih: "sorted_wrt (\<lambda>a b. f a < f b \<or> (f a = f b \<and> R a b)) (insort_key f x ys)"
      using Cons.IH Cons.prems by simp
    have "\<forall>z \<in> set (insort_key f x ys). f y < f z \<or> (f y = f z \<and> R y z)"
      using lt Cons.prems(1) by (auto simp: set_insort_key)
    then show ?thesis using False ih by simp
  qed
qed

lemma sort_key_refines:
  fixes f :: "'b \<Rightarrow> 'k::linorder"
  assumes "sorted_wrt R xs"
  shows "sorted_wrt (\<lambda>a b. f a < f b \<or> (f a = f b \<and> R a b)) (sort_key f xs)"
  using assms
proof (induction xs)
  case Nil
  then show ?case by simp
next
  case (Cons x xs)
  then have "\<forall>y \<in> set (sort_key f xs). R x y" by simp
  moreover have "sorted_wrt (\<lambda>a b. f a < f b \<or> (f a = f b \<and> R a b)) (sort_key f xs)"
    using Cons by simp
  ultimately show ?case by (simp add: insort_key_refines)
qed

lemma sorted_items_ranked:
  "sorted_wrt (ranks_before xs) (sort_key (\<lambda>(k, c). - c) (Counter xs))"
proof -
  have "sorted_wrt (\<lambda>a b. first_seen xs (fst a) < first_seen xs (fst b)) (Counter xs)"
    using Counter_keys [of xs] by (simp add: sorted_wrt_map)
  from sort_key_refines [OF this, of "\<lambda>(k, c). - c"]
  show ?thesis
    by (rule sorted_wrt_mono_rel [rotated]) (auto simp: ranks_before_def split: prod.splits)
qed

lemma most_common_ranking:
  fixes xs :: "'a list"
  defines "r \<equiv> most_common 3 (Counter xs)"
  shows "length r \<le> 3"
    and "length r = min 3 (card (set xs))"
    and "distinct (map fst r)"
    and "\<forall>(s, c) \<in> set r. s \<in> set xs \<and> c = int (count_list xs s)"
    and "sorted_wrt (ranks_before xs) r"
    and "\<forall>s \<in> set xs. s \<notin> fst ` set r \<longrightarrow>
           (\<forall>b \<in> set r. ranks_before xs b (s, int (count_list xs s)))"
proof -
  let ?S = "sort_key (\<lambda>(k, c). - c) (Counter xs)"
  have r: "r = take 3 ?S" by (simp add: r_def most_common_def)
  have S: "?S = r @ drop 3 ?S" by (simp add: r)
  have setS: "set ?S = set (Counter xs)" by simp
  have dS: "distinct (map fst ?S)"
    using Counter_keys [of xs] by (metis distinct_map distinct_sort set_sort)
  show "length r \<le> 3" by (simp add: r)
  have "length ?S = card (set xs)"
    using Counter_keys [of xs] by (metis distinct_card length_map length_sort)
  then show "length r = min 3 (card (set xs))" by (simp add: r min.commute)
  show "distinct (map fst r)" using dS by (simp add: r take_map [symmetric] distinct_take)
  have sub: "set r \<subseteq> set (Counter xs)" using setS by (metis r set_take_subset)
  then show "\<forall>(s, c) \<in> set r. s \<in> set xs \<and> c = int (count_list xs s)"
    using Counter_counts by fastforce
  have srt: "sorted_wrt (ranks_before xs) (r @ drop 3 ?S)"
    using sorted_items_ranked [of xs] S by simp
  then show "sorted_wrt (ranks_before xs) r" by (simp add: sorted_wrt_append)
  show "\<forall>s \<in> set xs. s \<notin> fst ` set r \<longrightarrow>
           (\<forall>b \<in> set r. ranks_before xs b (s, int (count_list xs s)))"
  proof (intro ballI impI)
    fix s b
    assume s: "s \<in> set xs" "s \<notin> fst ` set r" and b: "b \<in> set r"
    from s(1) Counter_keys [of xs] have "s \<in> fst ` set (Counter xs)" by auto
    then obtain c where c: "(s, c) \<in> set (Counter xs)" by auto
    with Counter_counts have cc: "c = int (count_list xs s)" by fastforce
    from c setS have "(s, c) \<in> set (r @ drop 3 ?S)" using S by metis
    with s(2) have "(s, c) \<in> set (drop 3 ?S)" by force
    with srt b have "ranks_before xs b (s, c)" by (simp add: sorted_wrt_append)
    then show "ranks_before xs b (s, int (count_list xs s))" by (simp add: cc)
  qed
qed

lemma py_list_of_Inr:
  "\<forall>r \<in> set rs. \<exists>x. r = Inr x \<Longrightarrow> \<exists>xs. py_list_of rs = Inr xs"
  by (induction rs) auto

lemma chord_solfege_notes_total: "\<exists>ns. chord_solfege_notes alpha t c = Inr ns"
proof -
  obtain g where g: "get_root_and_type alpha c = Inr g"
    using get_root_and_type_returns by blast
  show ?thesis
  proof (cases g)
    case None
    then show ?thesis using g by (simp add: chord_solfege_notes_def get_pentatonic_scale_notes_def)
  next
    case (Some a)
    obtain r mn nt where a: "a = (r, mn, nt)" by (cases a)
    from get_pentatonic_scale_notes_parsed [of alpha c r mn nt] g Some a
    obtain ns where p: "get_pentatonic_scale_notes alpha c = Inr (Some (ns, mn, nt))" by auto
    have "\<forall>x \<in> set (map (solfege_note t mn nt) ns). \<exists>y. x = Inr y"
    proof
      fix x
      assume "x \<in> set (map (solfege_note t mn nt) ns)"
      then obtain n where n: "n \<in> set ns" "x = solfege_note t mn nt n" by auto
      with get_pentatonic_scale_notes_sharp [OF p]
      obtain q where q: "0 \<le> q" "q < 12" "n = NOTES_SHARP ! nat q" by blast
      have "x = get_solfege_name
          (note_for_solfege nt mn (NOTES_SHARP ! nat (transposed_idx q t))) (ascii ''C'')"
        using n q by (simp add: solfege_note_eq)
      then show "\<exists>y. x = Inr y"
        using rendered_note(2) [of "transposed_idx q t" nt mn] transposed_idx_range [of q t]
        by simp
    qed
    then show ?thesis using p by (simp add: chord_solfege_notes_def py_list_of_Inr)
  qed
qed

lemma count_chords_total: "\<exists>r. count_chords alpha t cs acc = Inr r"
proof (induction cs arbitrary: acc)
  case Nil
  then show ?case by simp
next
  case (Cons c cs)
  obtain ns where "chord_solfege_notes alpha t c = Inr ns"
    using chord_solfege_notes_total by blast
  then show ?case using Cons by simp
qed

lemma count_measures_total: "\<exists>r. count_measures alpha t ms acc = Inr r"
proof (induction ms arbitrary: acc)
  case Nil
  then show ?case by simp
next
  case (Cons m ms)
  obtain a where "count_chords alpha t m acc = Inr a" using count_chords_total by blast
  then show ?case using Cons by simp
qed

lemma run_analysis_gui_total: "\<exists>a. run_analysis_gui alpha space upper key_var data = Inr a"
proof (cases "get_transposition_semitones space upper (py_strip space key_var)")
  case None
  then show ?thesis by (simp add: run_analysis_gui_def Let_def)
next
  case (Some t)
  obtain r where "count_measures alpha t data [] = Inr r" using count_measures_total by blast
  then show ?thesis using Some by (simp add: run_analysis_gui_def Let_def)
qed

lemma run_analysis_gui_ranking:
  assumes "run_analysis_gui alpha space upper key_var data = Inr (Ranking r)"
  shows "\<exists>t ns. get_transposition_semitones space upper (py_strip space key_var) = Some t \<and>
     count_measures alpha t data [] = Inr ns \<and> r = most_common 3 (Counter ns)"
  using assms
  by (auto simp: run_analysis_gui_def Let_def split: if_splits option.splits sum.splits)

lemma key_C: "get_transposition_semitones (\<lambda>_. False) (\<lambda>c. [c]) (py_strip (\<lambda>_. False) (ascii ''C'')) = Some 0"
  "py_strip (\<lambda>_. False) (ascii ''C'') \<noteq> []"
  by (simp_all add: get_transposition_semitones_def py_upper_def py_upper_char_def py_strip_def
        py_isspace_def dict_lookup_def table_defs)

lemma notes_C: "chord_solfege_notes (\<lambda>_. False) 0 (ascii ''C'') =
    Inr [[12489], [12524], [12511], [12477], [12521]]"
  unfolding chord_solfege_notes_def pentatonic_examples
  by (simp add: solfege_note_def transposed_idx_def
      note_for_solfege_def get_solfege_name_def note_for_idx_def is_flat_notation_def dict_get_def
      dict_has_def dict_item_def py_getitem_def Let_def table_defs)

lemma run_C: "run_analysis_gui (\<lambda>_. False) (\<lambda>_. False) (\<lambda>c. [c]) (ascii ''C'') [[ascii ''C'']] =
   Inr (Ranking [([12489], 1), ([12524], 1), ([12511], 1)])"
  by (simp add: run_analysis_gui_def key_C notes_C Let_def most_common_def Counter_def)

text \<open>
  Claim C7. For every sequence of syllables the ranker returns at most 3 pairs (as
  many as there are distinct syllables, if fewer than 3), each a syllable of the
  sequence with the number of its occurrences, no syllable twice; the pairs are in
  descending order of count, equal counts in the order in which the syllables were
  first encountered, and every syllable left out ranks after all the pairs
  returned. \<open>run_analysis_gui\<close> never raises, and the ranking it computes is the
  ranking of the syllables collected over all chords of all measures.
\<close>

theorem frequency_ranking:
  "(let r = most_common 3 (Counter xs)
    in length r \<le> 3 \<and> length r = min 3 (card (set xs)) \<and> distinct (map fst r) \<and>
       (\<forall>(s, c) \<in> set r. s \<in> set xs \<and> c = int (count_list xs s)) \<and>
       sorted_wrt (ranks_before xs) r \<and>
       (\<forall>s \<in> set xs. s \<notin> fst ` set r \<longrightarrow>
          (\<forall>b \<in> set r. ranks_before xs b (s, int (count_list xs s))))) \<and>
   (\<exists>a. run_analysis_gui alpha space upper key_var all_measures_data = Inr a) \<and>
   (run_analysis_gui alpha space upper key_var all_measures_data = Inr (Ranking top3) \<longrightarrow>
      (\<exists>t ns. get_transposition_semitones space upper (py_strip space key_var) = Some t \<and>
         count_measures alpha t all_measures_data [] = Inr ns \<and>
         top3 = most_common 3 (Counter ns)))"
proof (intro conjI)
  show "let r = most_common 3 (Counter xs)
    in length r \<le> 3 \<and> length r = min 3 (card (set xs)) \<and> distinct (map fst r) \<and>
       (\<forall>(s, c) \<in> set r. s \<in> set xs \<and> c = int (count_list xs s)) \<and>
       sorted_wrt (ranks_before xs) r \<and>
       (\<forall>s \<in> set xs. s \<notin> fst ` set r \<longrightarrow>
          (\<forall>b \<in> set r. ranks_before xs b (s, int (count_list xs s))))"
    unfolding Let_def using most_common_ranking [of xs] by (intro conjI)
  show "\<exists>a. run_analysis_gui alpha space upper key_var all_measures_data = Inr a"
    by (rule run_analysis_gui_total)
  show "run_analysis_gui alpha space upper key_var all_measures_data = Inr (Ranking top3) \<longrightarrow>
      (\<exists>t ns. get_transposition_semitones space upper (py_strip space key_var) = Some t \<and>
         count_measures alpha t all_measures_data [] = Inr ns \<and>
         top3 = most_common 3 (Counter ns))"
    by (intro impI) (rule run_analysis_gui_ranking)
qed

theorem frequency_ranking_witness:
  "most_common 3 (Counter [[12489], [12524], [12524], [12511], [12511], [12477 :: nat]]) =
     [([12524], 2), ([12511], 2), ([12489], 1)] \<and>
   sorted_wrt (ranks_before [[12489], [12524], [12524], [12511], [12511], [12477 :: nat]])
     [([12524], 2), ([12511], 2), ([12489], 1)] \<and>
   ranks_before [[12489], [12524], [12524], [12511], [12511], [12477 :: nat]]
     ([12489], 1) ([12477], 1) \<and>
   run_analysis_gui (\<lambda>_. False) (\<lambda>_. False) (\<lambda>c. [c]) (ascii ''C'') [[ascii ''C'']] =
     Inr (Ranking [([12489], 1), ([12524], 1), ([12511], 1)]) \<and>
   (\<exists>t ns. get_transposition_semitones (\<lambda>_. False) (\<lambda>c. [c])
              (py_strip (\<lambda>_. False) (ascii ''C'')) = Some t \<and>
      count_measures (\<lambda>_. False) t [[ascii ''C'']] [] = Inr ns \<and>
      [([12489], 1), ([12524], 1), ([12511], 1)] = most_common 3 (Counter ns))"
proof -
  let ?xs = "[[12489], [12524], [12524], [12511], [12511], [12477 :: nat]]"
  let ?r = "[([12524], 2), ([12511], 2), ([12489 :: nat], 1 :: int)]"
  have e: "most_common 3 (Counter ?xs) = ?r"
    by (simp add: most_common_def Counter_def)
  have m: "[12477] \<in> set ?xs" "[12477] \<notin> fst ` set ?r" "([12489], 1) \<in> set ?r"
    "int (count_list ?xs [12477]) = 1"
    by simp_all
  from frequency_ranking [of ?xs, THEN conjunct1]
  have s: "sorted_wrt (ranks_before ?xs) ?r"
    and b: "\<forall>s \<in> set ?xs. s \<notin> fst ` set ?r \<longrightarrow>
          (\<forall>b \<in> set ?r. ranks_before ?xs b (s, int (count_list ?xs s)))"
    unfolding Let_def e by blast+
  from b m(1,2) have "\<forall>b \<in> set ?r. ranks_before ?xs b ([12477], int (count_list ?xs [12477]))"
    by blast
  with m(3) have "ranks_before ?xs ([12489], 1) ([12477], int (count_list ?xs [12477]))" by blast
  then have "ranks_before ?xs ([12489], 1) ([12477], 1)" unfolding m(4) .
  moreover have "\<exists>t ns. get_transposition_semitones (\<lambda>_. False) (\<lambda>c. [c])
              (py_strip (\<lambda>_. False) (ascii ''C'')) = Some t \<and>
      count_measures (\<lambda>_. False) t [[ascii ''C'']] [] = Inr ns \<and>
      [([12489], 1), ([12524], 1), ([12511], 1)] = most_common 3 (Counter ns)"
    using frequency_ranking [where xs = "[] :: nat list", THEN conjunct2, THEN conjunct2] run_C
    by blast
  ultimately show ?thesis using e s run_C by blast
qed

end
